theory Spec2Isabelle
  imports Main "HOL-Library.AList"
begin

section \<open>TinyDAG: the dependency-graph walker of openstack/utils.py\<close>

text \<open>
  The class \<^verbatim>\<open>TinyDAG\<close> keeps an adjacency dict \<^verbatim>\<open>_graph\<close> (node to set of
  successors) and, once a traversal has been started, an in-degree dict, a FIFO queue of
  ready nodes, a set of completed nodes and a countdown of the pulls still expected.

  A Python dict keeps its keys in insertion order, so a dict is an association list with
  distinct keys. A Python set has no specified iteration order; a successor set is a
  list without repetitions, iterated from left to right, and the theorems about walks
  hold for every such list, hence for every iteration order. The names of the source
  are kept without their leading underscores.

  Every exception the methods can raise is a value of \<open>error\<close>. A method that mutates
  the object returns the object after the call next to its outcome, also when it
  raises: what was mutated before the exception stays mutated.
\<close>

datatype error = KeyError | AttributeError | SDKException | StopIteration

type_synonym 'a adjacency = "('a \<times> 'a list) list"

text \<open>The four attributes that \<^verbatim>\<open>_start_traverse\<close> assigns.\<close>

record 'a traverse =
  run_in_degree :: "('a \<times> int) list"
  queue :: "'a list"
  done_set :: "'a set"
  it_cnt :: nat

text \<open>
  The object. \<open>traversal\<close> is \<open>None\<close> until \<^verbatim>\<open>_start_traverse\<close> has run: the
  attributes do not exist yet, and reading one raises \<^verbatim>\<open>AttributeError\<close>. The
  attribute \<^verbatim>\<open>_lock\<close> is created by \<^verbatim>\<open>__init__\<close> and never used by any method.
\<close>

record 'a tinydag =
  graph :: "'a adjacency"
  wait_timeout :: nat
  traversal :: "'a traverse option"

subsection \<open>Dict and set primitives\<close>

text \<open>\<^verbatim>\<open>d.setdefault(k, v)\<close>: a missing key is appended, a present one is left alone.\<close>

definition setdefault :: "('k \<times> 'v) list \<Rightarrow> 'k \<Rightarrow> 'v \<Rightarrow> ('k \<times> 'v) list" where
  "setdefault d k v = (if k \<in> fst ` set d then d else d @ [(k, v)])"

text \<open>\<^verbatim>\<open>s.add(x)\<close> on a set.\<close>

definition set_add :: "'a list \<Rightarrow> 'a \<Rightarrow> 'a list" where
  "set_add xs x = (if x \<in> set xs then xs else xs @ [x])"

subsection \<open>Graph construction\<close>

definition new_dag :: "'a tinydag" where
  "new_dag = \<lparr>graph = [], wait_timeout = 120, traversal = None\<rparr>"

definition reset :: "'a tinydag \<Rightarrow> 'a tinydag" where
  "reset s = s\<lparr>graph := [], wait_timeout := 120\<rparr>"

definition add_node :: "'a tinydag \<Rightarrow> 'a \<Rightarrow> 'a tinydag" where
  "add_node s node = s\<lparr>graph := setdefault (graph s) node []\<rparr>"

text \<open>
  \<^verbatim>\<open>self._graph[u].add(v)\<close>: the subscript raises \<^verbatim>\<open>KeyError\<close> when \<open>u\<close> is
  not a key; otherwise the set stored under \<open>u\<close> is extended in place. Nothing is
  stored under \<open>v\<close>.
\<close>

definition add_edge :: "'a tinydag \<Rightarrow> 'a \<Rightarrow> 'a \<Rightarrow> error option \<times> 'a tinydag" where
  "add_edge s u v =
     (case map_of (graph s) u of
        None \<Rightarrow> (Some KeyError, s)
      | Some vs \<Rightarrow> (None, s\<lparr>graph := AList.update u (set_add vs v) (graph s)\<rparr>))"

fun from_dict_deps :: "'a tinydag \<Rightarrow> 'a \<Rightarrow> 'a list \<Rightarrow> error option \<times> 'a tinydag" where
  "from_dict_deps s k [] = (None, s)"
| "from_dict_deps s k (dep # v) =
     (case add_edge s k dep of
        (Some e, s') \<Rightarrow> (Some e, s')
      | (None, s') \<Rightarrow> from_dict_deps s' k v)"

fun from_dict_items :: "'a tinydag \<Rightarrow> 'a adjacency \<Rightarrow> error option \<times> 'a tinydag" where
  "from_dict_items s [] = (None, s)"
| "from_dict_items s ((k, v) # items) =
     (case from_dict_deps (add_node s k) k v of
        (Some e, s') \<Rightarrow> (Some e, s')
      | (None, s') \<Rightarrow> from_dict_items s' items)"

definition from_dict :: "'a tinydag \<Rightarrow> 'a adjacency \<Rightarrow> error option \<times> 'a tinydag" where
  "from_dict s data = from_dict_items (reset s) data"

text \<open>\<^verbatim>\<open>__init__(data=None)\<close>: an empty dict is falsy and is not loaded.\<close>

definition init :: "'a adjacency option \<Rightarrow> error option \<times> 'a tinydag" where
  "init data =
     (case data of
        None \<Rightarrow> (None, new_dag)
      | Some d \<Rightarrow> if d = [] then (None, new_dag) else from_dict new_dag d)"

text \<open>\<^verbatim>\<open>walk(timeout=None)\<close>: \<^verbatim>\<open>None\<close> and \<open>0\<close> are falsy.\<close>

definition walk :: "'a tinydag \<Rightarrow> nat option \<Rightarrow> 'a tinydag" where
  "walk s timeout =
     (case timeout of
        None \<Rightarrow> s
      | Some n \<Rightarrow> if n \<noteq> 0 then s\<lparr>wait_timeout := n\<rparr> else s)"

subsection \<open>Starting a traversal\<close>

text \<open>\<^verbatim>\<open>_in_degree[v] += 1\<close>: the read raises \<^verbatim>\<open>KeyError\<close> on a missing key.\<close>

fun in_degree_succs :: "('a \<times> int) list \<Rightarrow> 'a list \<Rightarrow> error + ('a \<times> int) list" where
  "in_degree_succs d [] = Inr d"
| "in_degree_succs d (v # vs) =
     (case map_of d v of
        None \<Rightarrow> Inl KeyError
      | Some c \<Rightarrow> in_degree_succs (AList.update v (c + 1) d) vs)"

text \<open>
  The outer loop \<^verbatim>\<open>for u in self._graph\<close> with its lookup \<^verbatim>\<open>self._graph[u]\<close>: the
  items of the dict in order.
\<close>

fun in_degree_nodes :: "('a \<times> int) list \<Rightarrow> 'a adjacency \<Rightarrow> error + ('a \<times> int) list" where
  "in_degree_nodes d [] = Inr d"
| "in_degree_nodes d ((u, vs) # items) =
     (case in_degree_succs d vs of
        Inl e \<Rightarrow> Inl e
      | Inr d' \<Rightarrow> in_degree_nodes d' items)"

definition get_in_degree :: "'a tinydag \<Rightarrow> error + ('a \<times> int) list" where
  "get_in_degree s = in_degree_nodes (map (\<lambda>u. (u, 0)) (map fst (graph s))) (graph s)"

text \<open>
  \<^verbatim>\<open>_start_traverse\<close>: \<^verbatim>\<open>_get_in_degree\<close> runs before the first assignment, so
  when it raises no attribute has changed.
\<close>

definition start_traverse :: "'a tinydag \<Rightarrow> error option \<times> 'a tinydag" where
  "start_traverse s =
     (case get_in_degree s of
        Inl e \<Rightarrow> (Some e, s)
      | Inr d \<Rightarrow>
          (None, s\<lparr>traversal := Some
             \<lparr>run_in_degree = d,
              queue = map fst (filter (\<lambda>(k, v). v = 0) d),
              done_set = {},
              it_cnt = length (graph s)\<rparr>\<rparr>))"

text \<open>\<^verbatim>\<open>__iter__\<close> starts the traversal and returns the object itself.\<close>

definition iter :: "'a tinydag \<Rightarrow> error option \<times> 'a tinydag" where
  "iter s = start_traverse s"

subsection \<open>Pulling a node and reporting completion\<close>

text \<open>
  \<^verbatim>\<open>__next__\<close>. The countdown is decremented before the blocking
  \<^verbatim>\<open>get(block=True, timeout=...)\<close>. With no other thread putting into the queue
  while the call waits, the call returns the head of a non-empty queue at once and
  raises \<^verbatim>\<open>queue.Empty\<close> after the timeout on an empty one, which the method turns
  into \<^verbatim>\<open>SDKException\<close>.
\<close>

definition next_step :: "'a tinydag \<Rightarrow> (error + 'a) \<times> 'a tinydag" where
  "next_step s =
     (case traversal s of
        None \<Rightarrow> (Inl AttributeError, s)
      | Some t \<Rightarrow>
          if it_cnt t > 0 then
            (case queue t of
               [] \<Rightarrow> (Inl SDKException, s\<lparr>traversal := Some (t\<lparr>it_cnt := it_cnt t - 1\<rparr>)\<rparr>)
             | res # q \<Rightarrow>
                 (Inr res, s\<lparr>traversal := Some (t\<lparr>queue := q, it_cnt := it_cnt t - 1\<rparr>)\<rparr>))
          else (Inl StopIteration, s))"

text \<open>
  The loop of \<^verbatim>\<open>node_done\<close> over the successors: decrement, then enqueue when the
  stored value is zero.
\<close>

fun node_done_succs :: "'a traverse \<Rightarrow> 'a list \<Rightarrow> error option \<times> 'a traverse" where
  "node_done_succs t [] = (None, t)"
| "node_done_succs t (v # vs) =
     (case map_of (run_in_degree t) v of
        None \<Rightarrow> (Some KeyError, t)
      | Some c \<Rightarrow>
          node_done_succs
            (if c - 1 = 0
             then t\<lparr>run_in_degree := AList.update v (c - 1) (run_in_degree t),
                    queue := queue t @ [v]\<rparr>
             else t\<lparr>run_in_degree := AList.update v (c - 1) (run_in_degree t)\<rparr>)
            vs)"

definition node_done :: "'a tinydag \<Rightarrow> 'a \<Rightarrow> error option \<times> 'a tinydag" where
  "node_done s node =
     (case traversal s of
        None \<Rightarrow> (Some AttributeError, s)
      | Some t \<Rightarrow>
          (case map_of (graph s) node of
             None \<Rightarrow>
               (Some KeyError, s\<lparr>traversal := Some (t\<lparr>done_set := insert node (done_set t)\<rparr>)\<rparr>)
           | Some vs \<Rightarrow>
               (case node_done_succs (t\<lparr>done_set := insert node (done_set t)\<rparr>) vs of
                  (r, t') \<Rightarrow> (r, s\<lparr>traversal := Some t'\<rparr>))))"

definition size_dag :: "'a tinydag \<Rightarrow> nat" where
  "size_dag s = length (map fst (graph s))"

definition is_complete :: "'a tinydag \<Rightarrow> error + bool" where
  "is_complete s =
     (case traversal s of
        None \<Rightarrow> Inl AttributeError
      | Some t \<Rightarrow> Inr (card (done_set t) = size_dag s))"

subsection \<open>Topological sort\<close>

text \<open>
  \<^verbatim>\<open>for node in self: result.append(node); self.node_done(node)\<close>. The loop ends
  on \<^verbatim>\<open>StopIteration\<close>; every other exception leaves the method.
\<close>

function topological_sort_loop ::
  "'a tinydag \<Rightarrow> 'a list \<Rightarrow> (error + 'a list) \<times> 'a tinydag" where
  "topological_sort_loop s result =
     (case next_step s of
        (Inl e, s') \<Rightarrow> if e = StopIteration then (Inr result, s') else (Inl e, s')
      | (Inr node, s') \<Rightarrow>
          (case node_done s' node of
             (Some e, s'') \<Rightarrow> (Inl e, s'')
           | (None, s'') \<Rightarrow> topological_sort_loop s'' (result @ [node])))"
  by pat_completeness auto

text \<open>The pulls a traversal still expects: the measure of the loop.\<close>

definition pulls_left :: "'a tinydag \<Rightarrow> nat" where
  "pulls_left s = (case traversal s of None \<Rightarrow> 0 | Some t \<Rightarrow> it_cnt t)"

lemma node_done_succs_it_cnt: "node_done_succs t vs = (r, t') \<Longrightarrow> it_cnt t' = it_cnt t"
  by (induction t vs rule: node_done_succs.induct) (auto split: option.splits if_splits)

lemma node_done_pulls_left: "node_done s node = (r, s') \<Longrightarrow> pulls_left s' = pulls_left s"
  by (auto simp: node_done_def pulls_left_def split: option.splits prod.splits
      dest: node_done_succs_it_cnt)

lemma next_step_pulls_left: "next_step s = (Inr node, s') \<Longrightarrow> pulls_left s' < pulls_left s"
  by (auto simp: next_step_def pulls_left_def split: option.splits if_splits list.splits)

termination topological_sort_loop
proof (relation "measure (\<lambda>(s, result). pulls_left s)")
  show "wf (measure (\<lambda>(s, result). pulls_left s))" by simp
next
  fix s :: "'a tinydag" and result x y b xa ya
  assume a: "(x, y) = next_step s" "x = Inr b" "(xa, ya) = node_done y b"
  from a have "pulls_left y < pulls_left s"
    by (metis next_step_pulls_left)
  moreover from a have "pulls_left ya = pulls_left y"
    by (metis node_done_pulls_left)
  ultimately show "((ya, result @ [b]), s, result) \<in> measure (\<lambda>(s, result). pulls_left s)"
    by simp
qed

definition topological_sort :: "'a tinydag \<Rightarrow> (error + 'a list) \<times> 'a tinydag" where
  "topological_sort s =
     (case iter s of
        (Some e, s') \<Rightarrow> (Inl e, s')
      | (None, s') \<Rightarrow> topological_sort_loop s' [])"

subsection \<open>Callers\<close>

text \<open>
  A caller of a started traversal pulls nodes and reports completions in some order of
  its own, as the cleanup loop of \<^verbatim>\<open>project_cleanup\<close> and the tests do. \<open>run\<close>
  performs a list of such calls one after the other, whatever each call raises, and
  collects the outcomes of the pulls.
\<close>

datatype 'a call = Pull | Done 'a

fun run :: "'a tinydag \<Rightarrow> 'a call list \<Rightarrow> (error + 'a) list \<times> 'a tinydag" where
  "run s [] = ([], s)"
| "run s (Pull # cs) =
     (case next_step s of (r, s') \<Rightarrow> (case run s' cs of (rs, s'') \<Rightarrow> (r # rs, s'')))"
| "run s (Done node # cs) = (case node_done s node of (r, s') \<Rightarrow> run s' cs)"

text \<open>The nodes among the outcomes of the pulls, in the order they were yielded.\<close>

fun yielded :: "(error + 'a) list \<Rightarrow> 'a list" where
  "yielded [] = []"
| "yielded (Inr node # rs) = node # yielded rs"
| "yielded (Inl e # rs) = yielded rs"

subsection \<open>Graphs\<close>

text \<open>
  What a dict of sets always satisfies: no key twice, no successor twice under one key.
\<close>

definition dict_of_sets :: "'a adjacency \<Rightarrow> bool" where
  "dict_of_sets g = (distinct (map fst g) \<and> list_all (\<lambda>(u, vs). distinct vs) g)"

text \<open>Every successor is itself a key of the graph.\<close>

definition closed_graph :: "'a adjacency \<Rightarrow> bool" where
  "closed_graph g = list_all (\<lambda>(u, vs). list_all (\<lambda>v. v \<in> fst ` set g) vs) g"

text \<open>The edges \<open>(u, v)\<close>: \<open>v\<close> is in the successor set stored under \<open>u\<close>.\<close>

definition edges :: "'a adjacency \<Rightarrow> ('a \<times> 'a) set" where
  "edges g = {(u, v). \<exists>vs. (u, vs) \<in> set g \<and> v \<in> set vs}"

text \<open>
  The prerequisites of \<open>x\<close> that are not in \<open>R\<close>: the entries of the graph whose
  key is outside \<open>R\<close> and whose successors contain \<open>x\<close>. With \<open>R\<close> empty this is
  the in-degree of \<open>x\<close>.
\<close>

definition pending :: "'a adjacency \<Rightarrow> 'a set \<Rightarrow> 'a \<Rightarrow> nat" where
  "pending g R x = sum_list (map (\<lambda>(u, vs). if u \<in> R then 0 else count_list vs x) g)"

text \<open>
  The position of the first occurrence of \<open>x\<close> in \<open>xs\<close>, as the tests compare
  \<^verbatim>\<open>test_list.index(k) < test_list.index(dep)\<close>; the length of \<open>xs\<close> when \<open>x\<close> does
  not occur.
\<close>

definition index_of :: "'a list \<Rightarrow> 'a \<Rightarrow> nat" where
  "index_of xs x = length (takeWhile (\<lambda>y. y \<noteq> x) xs)"

text \<open>
  No node stands twice in the list \<open>ys\<close> of yielded nodes followed by the ready queue,
  and every node in it has an in-degree entry that is zero or below.
\<close>

definition ready_once :: "'a traverse \<Rightarrow> 'a list \<Rightarrow> bool" where
  "ready_once t ys =
     (distinct (ys @ queue t) \<and>
      (\<forall>v \<in> set (ys @ queue t). \<exists>c. map_of (run_in_degree t) v = Some c \<and> c \<le> 0))"

text \<open>
  The state of \<^verbatim>\<open>topological_sort\<close> at the head of its loop, with \<open>res\<close> the nodes
  appended to the result so far, each of them yielded and reported done: the in-degree
  table has the keys of the graph and holds for each node the number of its
  prerequisites outside \<open>res\<close>; the nodes in \<open>res\<close> or in the queue are, without
  repetition, exactly the nodes with no such prerequisite; the countdown is the number of
  nodes not in \<open>res\<close>; and every prerequisite of a node in \<open>res\<close> stands before it
  in \<open>res\<close>.
\<close>

definition kahn_inv :: "'a adjacency \<Rightarrow> 'a traverse \<Rightarrow> 'a list \<Rightarrow> bool" where
  "kahn_inv g t res =
     (fst ` set (run_in_degree t) = fst ` set g \<and>
      (\<forall>x \<in> fst ` set g. map_of (run_in_degree t) x = Some (int (pending g (set res) x))) \<and>
      distinct (res @ queue t) \<and>
      set (res @ queue t) = {x \<in> fst ` set g. pending g (set res) x = 0} \<and>
      it_cnt t + length res = length g \<and>
      (\<forall>(u, v) \<in> edges g. v \<in> set res \<longrightarrow> u \<in> set res \<and> index_of res u < index_of res v))"

text \<open>
  The objects a caller can build: a fresh object, then any sequence of \<^verbatim>\<open>add_node\<close>,
  \<^verbatim>\<open>add_edge\<close> (whether it raises or not) and \<^verbatim>\<open>from_dict\<close> on a dict.
\<close>

inductive built :: "'a tinydag \<Rightarrow> bool" where
  built_new: "built new_dag"
| built_node: "built s \<Longrightarrow> built (add_node s node)"
| built_edge: "built s \<Longrightarrow> built (snd (add_edge s u v))"
| built_dict: "built s \<Longrightarrow> distinct (map fst data) \<Longrightarrow> built (snd (from_dict s data))"

text \<open>How many times \<open>x\<close> stands in the ready queue.\<close>

definition enqueued :: "'a tinydag \<Rightarrow> 'a \<Rightarrow> nat" where
  "enqueued s x = (case traversal s of None \<Rightarrow> 0 | Some t \<Rightarrow> count_list (queue t) x)"

subsection \<open>Concurrent completions\<close>

text \<open>
  \<^verbatim>\<open>node_done\<close> acquires no lock: the \<^verbatim>\<open>_lock\<close> that \<^verbatim>\<open>__init__\<close> creates
  is not used by any method. Two threads that run \<^verbatim>\<open>node_done\<close> at the same time
  therefore interleave. The interpreter can switch threads between any two bytecodes;
  here a thread is switched only between two statements of the method, so every
  schedule below is one the interpreter can produce. A thread is at one of these
  points of the method: about to run \<^verbatim>\<open>self._done.add(node)\<close>; about to evaluate
  \<^verbatim>\<open>self._graph[node]\<close> for the loop; at the head of the loop with the successors
  still to visit; between the decrement \<^verbatim>\<open>self._run_in_degree[v] -= 1\<close> and the
  test \<^verbatim>\<open>if self._run_in_degree[v] == 0\<close>; returned; or left by an exception.
\<close>

datatype 'a thread = Start 'a | Iterate 'a | Loop "'a list" | Check 'a "'a list"
  | Returned | Raised error

text \<open>One statement of \<^verbatim>\<open>node_done\<close>, run by a thread on the shared attributes.\<close>

fun thread_step :: "'a adjacency \<Rightarrow> 'a thread \<Rightarrow> 'a traverse \<Rightarrow> 'a thread \<times> 'a traverse" where
  "thread_step g (Start node) t = (Iterate node, t\<lparr>done_set := insert node (done_set t)\<rparr>)"
| "thread_step g (Iterate node) t =
     (case map_of g node of None \<Rightarrow> (Raised KeyError, t) | Some vs \<Rightarrow> (Loop vs, t))"
| "thread_step g (Loop []) t = (Returned, t)"
| "thread_step g (Loop (v # vs)) t =
     (case map_of (run_in_degree t) v of
        None \<Rightarrow> (Raised KeyError, t)
      | Some c \<Rightarrow> (Check v vs, t\<lparr>run_in_degree := AList.update v (c - 1) (run_in_degree t)\<rparr>))"
| "thread_step g (Check v vs) t =
     (case map_of (run_in_degree t) v of
        None \<Rightarrow> (Raised KeyError, t)
      | Some c \<Rightarrow> (Loop vs, if c = 0 then t\<lparr>queue := queue t @ [v]\<rparr> else t))"
| "thread_step g Returned t = (Returned, t)"
| "thread_step g (Raised e) t = (Raised e, t)"

text \<open>A thread running \<open>k\<close> statements with no other thread in between.\<close>

fun alone :: "'a adjacency \<Rightarrow> nat \<Rightarrow> 'a thread \<Rightarrow> 'a traverse \<Rightarrow> 'a thread \<times> 'a traverse" where
  "alone g 0 th t = (th, t)"
| "alone g (Suc k) th t = (case thread_step g th t of (th', t') \<Rightarrow> alone g k th' t')"

text \<open>
  Two threads under a schedule: \<open>False\<close> lets the first thread run its next statement,
  \<open>True\<close> the second.
\<close>

fun interleave ::
  "'a adjacency \<Rightarrow> bool list \<Rightarrow> 'a thread \<times> 'a thread \<times> 'a traverse
     \<Rightarrow> 'a thread \<times> 'a thread \<times> 'a traverse" where
  "interleave g [] c = c"
| "interleave g (b # bs) (th1, th2, t) =
     (if b then (case thread_step g th2 t of (th2', t') \<Rightarrow> interleave g bs (th1, th2', t'))
      else (case thread_step g th1 t of (th1', t') \<Rightarrow> interleave g bs (th1', th2, t')))"

text \<open>Where a thread ends for an outcome of the method.\<close>

definition outcome :: "error option \<Rightarrow> 'a thread" where
  "outcome r = (case r of None \<Rightarrow> Returned | Some e \<Rightarrow> Raised e)"

subsection \<open>Example graphs\<close>

text \<open>A node \<open>n\<close> with the two prerequisites \<open>p\<close> and \<open>q\<close>.\<close>

definition fan_in_dag :: "string tinydag" where
  "fan_in_dag = \<lparr>graph = [(''p'', [''n'']), (''q'', [''n'']), (''n'', [])],
                 wait_timeout = 120, traversal = None\<rparr>"

text \<open>\<^verbatim>\<open>TestTinyDAG.test_graph\<close> of the unit tests.\<close>

definition test_graph :: "string adjacency" where
  "test_graph =
     [(''a'', [''b'', ''d'', ''f'']), (''b'', [''c'', ''d'']), (''c'', [''d'']),
      (''d'', [''e'']), (''e'', []), (''f'', [''e'']), (''g'', [''e''])]"

text \<open>The graph of the concrete scenario: the test graph without \<open>g\<close>.\<close>

definition spec_graph :: "string adjacency" where
  "spec_graph =
     [(''a'', [''b'', ''d'', ''f'']), (''b'', [''c'', ''d'']), (''c'', [''d'']),
      (''d'', [''e'']), (''e'', []), (''f'', [''e''])]"

text \<open>
  The fan-in graph with a node \<open>m\<close> after \<open>n\<close>:
  \<^verbatim>\<open>{'p': ['n'], 'q': ['n'], 'n': ['m'], 'm': []}\<close>.
\<close>

definition relay_dag :: "string tinydag" where
  "relay_dag = \<lparr>graph = [(''p'', [''n'']), (''q'', [''n'']), (''n'', [''m'']), (''m'', [])],
               wait_timeout = 120, traversal = None\<rparr>"

text \<open>A cycle of two nodes.\<close>

definition cycle_dag :: "string tinydag" where
  "cycle_dag = \<lparr>graph = [(''a'', [''b'']), (''b'', [''a''])],
               wait_timeout = 120, traversal = None\<rparr>"

text \<open>A chain of two nodes.\<close>

definition chain_dag :: "string tinydag" where
  "chain_dag = \<lparr>graph = [(''a'', [''b'']), (''b'', [])],
               wait_timeout = 120, traversal = None\<rparr>"

section \<open>Graph construction: what the insertions do\<close>

lemma add_node_present: "node \<in> fst ` set (graph s) \<Longrightarrow> add_node s node = s"
  by (simp add: add_node_def setdefault_def)

lemma add_edge_present:
  "map_of (graph s) u = Some vs \<Longrightarrow> v \<in> set vs \<Longrightarrow> add_edge s u v = (None, s)"
  by (simp add: add_edge_def set_add_def update_triv)

lemma add_node_twice: "add_node (add_node s node) node = add_node s node"
  by (auto simp: add_node_def setdefault_def)

lemma add_edge_twice:
  "add_edge (snd (add_edge s u v)) u v = (fst (add_edge s u v), snd (add_edge s u v))"
  by (auto simp: add_edge_def set_add_def update_conv' update_triv split: option.splits)

lemma update_keys_present:
  "map_of d k = Some x \<Longrightarrow> map fst (AList.update k y d) = map fst d"
  by (simp add: update_keys map_of_eq_None_iff[symmetric] del: map_of_eq_None_iff)

lemma set_set_add: "set (set_add vs v) = insert v (set vs)"
  by (auto simp: set_add_def)

lemma distinct_set_add: "distinct vs \<Longrightarrow> distinct (set_add vs v)"
  by (auto simp: set_add_def)

text \<open>
  C8. \<^verbatim>\<open>add_node\<close> and \<^verbatim>\<open>add_edge\<close> are idempotent. Adding a node that is already
  a key leaves the whole object as it was, so the successor set stored under it is not
  cleared; adding a node twice is the same as adding it once. Adding an edge \<open>(u, v)\<close>
  whose \<open>v\<close> is already in the successor set of \<open>u\<close> leaves the whole object as it was,
  so no successor set changes its cardinality; adding an edge twice is the same, in
  outcome and in state, as adding it once.
\<close>

theorem add_node_add_edge_idempotent:
  "(node \<in> fst ` set (graph s) \<longrightarrow> add_node s node = s) \<and>
   add_node (add_node s node) node = add_node s node \<and>
   (\<forall>vs. map_of (graph s) u = Some vs \<and> v \<in> set vs \<longrightarrow> add_edge s u v = (None, s)) \<and>
   add_edge (snd (add_edge s u v)) u v = add_edge s u v"
  using add_node_present add_edge_present add_node_twice add_edge_twice
  by (metis prod.collapse)

text \<open>
  The sequence of \<^verbatim>\<open>test_add_node_after_edge\<close>: after \<^verbatim>\<open>add_node('a')\<close> and
  \<^verbatim>\<open>add_edge('a', 'b')\<close>, a second \<^verbatim>\<open>add_node('a')\<close> and a second
  \<^verbatim>\<open>add_edge('a', 'b')\<close> change nothing.
\<close>

theorem add_node_add_edge_idempotent_witness:
  "graph (snd (add_edge (add_node new_dag ''a'') ''a'' ''b'')) = [(''a'', [''b''])] \<and>
   add_node (snd (add_edge (add_node new_dag ''a'') ''a'' ''b'')) ''a''
     = snd (add_edge (add_node new_dag ''a'') ''a'' ''b'') \<and>
   add_edge (snd (add_edge (add_node new_dag ''a'') ''a'' ''b'')) ''a'' ''b''
     = (None, snd (add_edge (add_node new_dag ''a'') ''a'' ''b''))"
proof -
  let ?s = "snd (add_edge (add_node new_dag ''a'') ''a'' ''b'')"
  have g: "graph ?s = [(''a'', [''b''])]"
    by (simp add: add_edge_def add_node_def new_dag_def setdefault_def set_add_def)
  from add_node_add_edge_idempotent [of "''a''" ?s "''a''" "''b''"] g
  show ?thesis by simp
qed

text \<open>
  C5, as the claim states it, fails: on a graph without the node \<open>u\<close> the call
  \<^verbatim>\<open>add_edge(u, v)\<close> raises \<^verbatim>\<open>KeyError\<close>.
\<close>

theorem add_edge_missing_source_raises:
  "add_edge new_dag ''u'' ''v'' = (Some KeyError, new_dag)"
  by (simp add: add_edge_def new_dag_def)

text \<open>
  C5, amended. \<^verbatim>\<open>add_edge(u, v)\<close> raises \<^verbatim>\<open>KeyError\<close> and leaves the object as
  it was when \<open>u\<close> is not a node. When \<open>u\<close> is a node the call succeeds, puts \<open>v\<close> into
  the successor set of \<open>u\<close> and changes nothing else: the keys of the graph, in their
  order, are the ones before the call, so \<open>v\<close> is not created as a node.
\<close>

theorem add_edge_needs_source_node:
  "(map_of (graph s) u = None \<longrightarrow> add_edge s u v = (Some KeyError, s)) \<and>
   (\<forall>vs. map_of (graph s) u = Some vs \<longrightarrow>
      (\<exists>s'. add_edge s u v = (None, s') \<and>
            map fst (graph s') = map fst (graph s) \<and>
            map_of (graph s') = (map_of (graph s))(u \<mapsto> set_add vs v) \<and>
            set (set_add vs v) = insert v (set vs) \<and>
            wait_timeout s' = wait_timeout s \<and> traversal s' = traversal s))"
  by (simp add: add_edge_def update_keys_present update_conv' set_set_add)

theorem add_edge_needs_source_node_witness:
  "map_of (graph (add_node new_dag ''u'')) ''u'' = Some [] \<and>
   fst (add_edge (add_node new_dag ''u'') ''u'' ''v'') = None \<and>
   map fst (graph (snd (add_edge (add_node new_dag ''u'') ''u'' ''v''))) = [''u''] \<and>
   map_of (graph (new_dag :: string tinydag)) ''w'' = None \<and>
   add_edge (new_dag :: string tinydag) ''w'' ''v'' = (Some KeyError, new_dag)"
proof -
  let ?s = "add_node new_dag ''u'' :: string tinydag"
  have g: "map_of (graph ?s) ''u'' = Some []"
    by (simp add: add_node_def new_dag_def setdefault_def)
  have k: "map fst (graph ?s) = [''u'']"
    by (simp add: add_node_def new_dag_def setdefault_def)
  have e: "map_of (graph (new_dag :: string tinydag)) ''w'' = None"
    by (simp add: new_dag_def)
  from add_edge_needs_source_node [of ?s "''u''" "''v''", THEN conjunct2, rule_format, OF g]
  obtain s' where s': "add_edge ?s ''u'' ''v'' = (None, s')"
    "map fst (graph s') = map fst (graph ?s)"
    by blast
  have r: "add_edge (new_dag :: string tinydag) ''w'' ''v'' = (Some KeyError, new_dag)"
    by (rule add_edge_needs_source_node [of new_dag "''w''" "''v''", THEN conjunct1, rule_format, OF e])
  from s' have "fst (add_edge ?s ''u'' ''v'') = None"
    "map fst (graph (snd (add_edge ?s ''u'' ''v''))) = [''u'']"
    by (simp_all only: fst_conv snd_conv k)
  with g e r show ?thesis by blast
qed

section \<open>The walk leaves the graph alone\<close>

lemma start_traverse_graph: "graph (snd (start_traverse s)) = graph s"
  by (simp add: start_traverse_def split: sum.splits)

lemma start_traverse_timeout: "wait_timeout (snd (start_traverse s)) = wait_timeout s"
  by (simp add: start_traverse_def split: sum.splits)

lemma next_step_graph: "graph (snd (next_step s)) = graph s"
  by (simp add: next_step_def split: option.splits list.splits)

lemma next_step_timeout: "wait_timeout (snd (next_step s)) = wait_timeout s"
  by (simp add: next_step_def split: option.splits list.splits)

lemma node_done_graph: "graph (snd (node_done s x)) = graph s"
  by (simp add: node_done_def split: option.splits prod.splits)

lemma node_done_timeout: "wait_timeout (snd (node_done s x)) = wait_timeout s"
  by (simp add: node_done_def split: option.splits prod.splits)

lemma topological_sort_loop_frame:
  "graph (snd (topological_sort_loop s result)) = graph s \<and>
   wait_timeout (snd (topological_sort_loop s result)) = wait_timeout s"
proof (induction s result rule: topological_sort_loop.induct)
  case (1 s result)
  show ?case
  proof (cases "next_step s")
    case (Pair r s')
    have g: "graph s' = graph s" "wait_timeout s' = wait_timeout s"
      using next_step_graph[of s] next_step_timeout[of s] Pair by simp_all
    show ?thesis
    proof (cases r)
      case (Inl e)
      with Pair g show ?thesis by (subst topological_sort_loop.simps) simp
    next
      case (Inr node)
      obtain r2 s'' where nd: "node_done s' node = (r2, s'')" by (cases "node_done s' node")
      have g2: "graph s'' = graph s'" "wait_timeout s'' = wait_timeout s'"
        using node_done_graph[of s' node] node_done_timeout[of s' node] nd by simp_all
      show ?thesis
      proof (cases r2)
        case None
        from "1.IH"[OF Pair[symmetric] Inr nd[symmetric] None] Pair Inr nd None g g2
        show ?thesis by (subst (1 2) topological_sort_loop.simps) simp
      next
        case (Some e)
        with Pair Inr nd g g2 show ?thesis by (subst (1 2) topological_sort_loop.simps) simp
      qed
    qed
  qed
qed

lemma topological_sort_frame:
  "graph (snd (topological_sort s)) = graph s \<and>
   wait_timeout (snd (topological_sort s)) = wait_timeout s"
proof (cases "start_traverse s")
  case (Pair r s')
  have g: "graph s' = graph s" "wait_timeout s' = wait_timeout s"
    using start_traverse_graph[of s] start_traverse_timeout[of s] Pair by simp_all
  show ?thesis
    using Pair g topological_sort_loop_frame[of s' "[]"]
    by (cases r) (simp_all add: topological_sort_def iter_def)
qed

lemma run_graph: "graph (snd (run s cs)) = graph s"
proof (induction cs arbitrary: s)
  case Nil
  show ?case by simp
next
  case (Cons c cs)
  show ?case
  proof (cases c)
    case Pull
    obtain r s' where n: "next_step s = (r, s')" by (cases "next_step s")
    obtain rs s'' where r: "run s' cs = (rs, s'')" by (cases "run s' cs")
    have "graph s'' = graph s'" using Cons.IH[of s'] r by simp
    moreover have "graph s' = graph s" using next_step_graph[of s] n by simp
    ultimately show ?thesis using Pull n r by simp
  next
    case (Done node)
    obtain r s' where n: "node_done s node = (r, s')" by (cases "node_done s node")
    have "graph (snd (run s' cs)) = graph s'" using Cons.IH[of s'] by simp
    moreover have "graph s' = graph s" using node_done_graph[of s node] n by simp
    ultimately show ?thesis using Done n by simp
  qed
qed

lemma start_traverse_only_graph:
  "graph s' = graph s \<Longrightarrow> wait_timeout s' = wait_timeout s \<Longrightarrow>
   fst (start_traverse s) = None \<Longrightarrow> start_traverse s' = start_traverse s"
  by (auto simp: start_traverse_def get_in_degree_def split: sum.splits)

lemma start_traverse_fails: "fst (start_traverse s) = Some e \<Longrightarrow> snd (start_traverse s) = s"
  by (auto simp: start_traverse_def split: sum.splits)

lemma topological_sort_again: "topological_sort (snd (topological_sort s)) = topological_sort s"
proof (cases "fst (start_traverse s)")
  case None
  have "start_traverse (snd (topological_sort s)) = start_traverse s"
    using topological_sort_frame[of s] None by (intro start_traverse_only_graph) simp_all
  then show ?thesis by (simp add: topological_sort_def iter_def)
next
  case (Some e)
  then have "snd (topological_sort s) = s"
    using start_traverse_fails[OF Some]
    by (cases "start_traverse s") (simp add: topological_sort_def iter_def)
  then show ?thesis by simp
qed

text \<open>
  C10. No operation of the walk phase changes the adjacency dict. Starting a traversal
  (\<^verbatim>\<open>_start_traverse\<close>, \<^verbatim>\<open>__iter__\<close>), setting the timeout (\<^verbatim>\<open>walk\<close>), pulling
  (\<^verbatim>\<open>__next__\<close>), reporting completion (\<^verbatim>\<open>node_done\<close>), any sequence of pulls and
  completions, and \<^verbatim>\<open>topological_sort\<close> return an object whose graph is the graph
  before the call, with the same keys in the same order and the same successors under
  each, whatever the call returns or raises. A second \<^verbatim>\<open>topological_sort\<close> on the
  object the first one leaves behind gives the outcome and the object of the first.
\<close>

theorem walk_operations_keep_graph:
  "graph (snd (start_traverse s)) = graph s \<and>
   graph (snd (iter s)) = graph s \<and>
   graph (walk s timeout) = graph s \<and>
   graph (snd (next_step s)) = graph s \<and>
   graph (snd (node_done s x)) = graph s \<and>
   graph (snd (run s cs)) = graph s \<and>
   graph (snd (topological_sort s)) = graph s \<and>
   topological_sort (snd (topological_sort s)) = topological_sort s"
  using start_traverse_graph[of s] next_step_graph[of s] node_done_graph[of s x]
    run_graph[of s cs] topological_sort_frame[of s] topological_sort_again[of s]
  by (simp add: iter_def walk_def split: option.splits)

section \<open>Loading a graph from a dict\<close>

lemma update_append_fresh:
  "k \<notin> fst ` set g \<Longrightarrow> AList.update k y (g @ [(k, x)]) = g @ [(k, y)]"
  by (induction g) auto

lemma map_of_append_fresh:
  "k \<notin> fst ` set g \<Longrightarrow> map_of (g @ [(k, x)]) k = Some x"
  by (induction g) auto

lemma from_dict_deps_graph:
  "map_of (graph s) k = Some vs \<Longrightarrow>
   from_dict_deps s k v = (None, s\<lparr>graph := AList.update k (foldl set_add vs v) (graph s)\<rparr>)"
proof (induction v arbitrary: s vs)
  case Nil
  then show ?case by (simp add: update_triv)
next
  case (Cons dep v)
  let ?s' = "s\<lparr>graph := AList.update k (set_add vs dep) (graph s)\<rparr>"
  have e: "add_edge s k dep = (None, ?s')"
    using Cons.prems by (simp add: add_edge_def)
  have m: "map_of (graph ?s') k = Some (set_add vs dep)"
    by (simp add: update_conv')
  show ?case
    using Cons.IH[OF m] e by simp
qed

lemma from_dict_items_graph:
  "distinct (map fst data) \<Longrightarrow> fst ` set data \<inter> fst ` set (graph s) = {} \<Longrightarrow>
   from_dict_items s data =
     (None, s\<lparr>graph := graph s @ map (\<lambda>(k, v). (k, foldl set_add [] v)) data\<rparr>)"
proof (induction data arbitrary: s)
  case Nil
  show ?case by simp
next
  case (Cons item data)
  obtain k v where item: "item = (k, v)" by (cases item)
  have fresh: "k \<notin> fst ` set (graph s)"
    using Cons.prems(2) item by auto
  let ?s1 = "add_node s k"
  have g1: "graph ?s1 = graph s @ [(k, [])]"
    using fresh by (simp add: add_node_def setdefault_def)
  have m1: "map_of (graph ?s1) k = Some []"
    unfolding g1 by (rule map_of_append_fresh[OF fresh])
  let ?s2 = "?s1\<lparr>graph := AList.update k (foldl set_add [] v) (graph ?s1)\<rparr>"
  have d: "from_dict_deps ?s1 k v = (None, ?s2)"
    by (rule from_dict_deps_graph[OF m1])
  have g2: "graph ?s2 = graph s @ [(k, foldl set_add [] v)]"
    using fresh by (simp add: g1 update_append_fresh)
  have dis: "distinct (map fst data)" using Cons.prems(1) by simp
  have disj: "fst ` set data \<inter> fst ` set (graph ?s2) = {}"
    using Cons.prems item by (auto simp: g2)
  have "from_dict_items ?s2 data =
     (None, ?s2\<lparr>graph := graph ?s2 @ map (\<lambda>(k, v). (k, foldl set_add [] v)) data\<rparr>)"
    by (rule Cons.IH[OF dis disj])
  moreover have "?s2\<lparr>graph := graph ?s2 @ map (\<lambda>(k, v). (k, foldl set_add [] v)) data\<rparr>
     = s\<lparr>graph := graph s @ map (\<lambda>(k, v). (k, foldl set_add [] v)) (item # data)\<rparr>"
    using fresh by (simp add: item add_node_def setdefault_def update_append_fresh)
  ultimately show ?case using d item by simp
qed

lemma set_foldl_set_add: "set (foldl set_add vs v) = set vs \<union> set v"
  by (induction v arbitrary: vs) (auto simp: set_set_add)

lemma distinct_foldl_set_add: "distinct vs \<Longrightarrow> distinct (foldl set_add vs v)"
  by (induction v arbitrary: vs) (auto simp: distinct_set_add)

lemma from_dict_graph:
  "distinct (map fst data) \<Longrightarrow>
   from_dict s data =
     (None, s\<lparr>graph := map (\<lambda>(k, v). (k, foldl set_add [] v)) data, wait_timeout := 120\<rparr>)"
  using from_dict_items_graph[of data "reset s"]
  by (simp add: from_dict_def reset_def)

section \<open>The in-degree table\<close>

lemma keys_update_present:
  "map_of d k = Some x \<Longrightarrow> fst ` set (AList.update k y d) = fst ` set d"
  by (auto simp: dom_update dest: map_of_SomeD intro: rev_image_eqI)

lemma in_degree_succs_ok:
  "set vs \<subseteq> fst ` set d \<Longrightarrow>
   \<exists>d'. in_degree_succs d vs = Inr d' \<and> map fst d' = map fst d \<and>
     (\<forall>x. map_of d' x = map_option (\<lambda>c. c + int (count_list vs x)) (map_of d x))"
proof (induction vs arbitrary: d)
  case Nil
  show ?case by (simp add: option.map_ident)
next
  case (Cons v vs)
  from Cons.prems have "v \<in> fst ` set d" by simp
  then obtain c where c: "map_of d v = Some c"
    by (cases "map_of d v") (auto simp: map_of_eq_None_iff)
  let ?d1 = "AList.update v (c + 1) d"
  have k1: "map fst ?d1 = map fst d" by (rule update_keys_present[OF c])
  have s1: "fst ` set ?d1 = fst ` set d" by (rule keys_update_present[OF c])
  have m1: "map_of ?d1 = (map_of d)(v \<mapsto> c + 1)" by (rule update_conv')
  from Cons.prems s1 have "set vs \<subseteq> fst ` set ?d1" by simp
  from Cons.IH[OF this] obtain d' where d':
    "in_degree_succs ?d1 vs = Inr d'" "map fst d' = map fst ?d1"
    "\<And>x. map_of d' x = map_option (\<lambda>c. c + int (count_list vs x)) (map_of ?d1 x)"
    by blast
  have "\<And>x. map_of d' x = map_option (\<lambda>c. c + int (count_list (v # vs) x)) (map_of d x)"
  proof -
    fix x
    show "map_of d' x = map_option (\<lambda>c. c + int (count_list (v # vs) x)) (map_of d x)"
      unfolding d'(3) m1 using c by (cases "x = v") simp_all
  qed
  with d'(1,2) k1 c show ?case by simp
qed

lemma in_degree_succs_fail:
  "\<not> set vs \<subseteq> fst ` set d \<Longrightarrow> in_degree_succs d vs = Inl KeyError"
proof (induction vs arbitrary: d)
  case Nil
  then show ?case by simp
next
  case (Cons v vs)
  show ?case
  proof (cases "map_of d v")
    case None
    then show ?thesis by simp
  next
    case (Some c)
    then have "v \<in> fst ` set d" by (metis map_of_eq_None_iff option.distinct(1))
    with Cons.prems have "\<not> set vs \<subseteq> fst ` set d" by simp
    then have "\<not> set vs \<subseteq> fst ` set (AList.update v (c + 1) d)"
      unfolding keys_update_present[OF Some] .
    from Cons.IH[OF this] Some show ?thesis by simp
  qed
qed

lemma in_degree_nodes_ok:
  "list_all (\<lambda>(u, vs). set vs \<subseteq> fst ` set d) items \<Longrightarrow>
   \<exists>d'. in_degree_nodes d items = Inr d' \<and> map fst d' = map fst d \<and>
     (\<forall>x. map_of d' x =
        map_option (\<lambda>c. c + int (sum_list (map (\<lambda>(u, vs). count_list vs x) items))) (map_of d x))"
proof (induction items arbitrary: d)
  case Nil
  show ?case by (simp add: option.map_ident)
next
  case (Cons item items)
  obtain u vs where item: "item = (u, vs)" by (cases item)
  from Cons.prems item have sub: "set vs \<subseteq> fst ` set d" by simp
  from in_degree_succs_ok[OF sub] obtain d1 where d1:
    "in_degree_succs d vs = Inr d1" "map fst d1 = map fst d"
    "\<And>x. map_of d1 x = map_option (\<lambda>c. c + int (count_list vs x)) (map_of d x)"
    by blast
  from d1(2) have "fst ` set d1 = fst ` set d" by (metis set_map)
  with Cons.prems have "list_all (\<lambda>(u, vs). set vs \<subseteq> fst ` set d1) items" by simp
  from Cons.IH[OF this] obtain d' where d':
    "in_degree_nodes d1 items = Inr d'" "map fst d' = map fst d1"
    "\<And>x. map_of d' x =
        map_option (\<lambda>c. c + int (sum_list (map (\<lambda>(u, vs). count_list vs x) items))) (map_of d1 x)"
    by blast
  have "\<And>x. map_of d' x =
        map_option (\<lambda>c. c + int (sum_list (map (\<lambda>(u, vs). count_list vs x) (item # items))))
          (map_of d x)"
    unfolding d'(3) d1(3) item by (simp add: option.map_comp comp_def add.assoc)
  with d'(1,2) d1(1,2) item show ?case by simp
qed

lemma in_degree_nodes_fail:
  "\<not> list_all (\<lambda>(u, vs). set vs \<subseteq> fst ` set d) items \<Longrightarrow>
   in_degree_nodes d items = Inl KeyError"
proof (induction items arbitrary: d)
  case Nil
  then show ?case by simp
next
  case (Cons item items)
  obtain u vs where item: "item = (u, vs)" by (cases item)
  show ?case
  proof (cases "set vs \<subseteq> fst ` set d")
    case False
    then show ?thesis using item by (simp add: in_degree_succs_fail)
  next
    case True
    from in_degree_succs_ok[OF True] obtain d1 where d1:
      "in_degree_succs d vs = Inr d1" "map fst d1 = map fst d"
      by blast
    from d1(2) have "fst ` set d1 = fst ` set d" by (metis set_map)
    with Cons.prems True item
    have "\<not> list_all (\<lambda>(u, vs). set vs \<subseteq> fst ` set d1) items" by simp
    from Cons.IH[OF this] d1(1) item show ?thesis by simp
  qed
qed

lemma map_of_zeroes: "map_of (map (\<lambda>u. (u, 0::int)) ks) x = (if x \<in> set ks then Some 0 else None)"
  by (induction ks) auto

lemma closed_graph_iff:
  "closed_graph g = list_all (\<lambda>(u, vs). set vs \<subseteq> fst ` set g) g"
  by (auto simp: closed_graph_def list_all_iff)

lemma get_in_degree_closed:
  assumes "closed_graph (graph s)"
  shows "\<exists>d. get_in_degree s = Inr d \<and> map fst d = map fst (graph s) \<and>
     (\<forall>x. map_of d x =
        (if x \<in> fst ` set (graph s) then Some (int (pending (graph s) {} x)) else None))"
proof -
  let ?d0 = "map (\<lambda>u. (u, 0::int)) (map fst (graph s))"
  have k0: "map fst ?d0 = map fst (graph s)" by (simp add: comp_def)
  then have e: "fst ` set ?d0 = fst ` set (graph s)" by (metis set_map)
  from assms have "list_all (\<lambda>(u, vs). set vs \<subseteq> fst ` set ?d0) (graph s)"
    unfolding closed_graph_iff e .
  from in_degree_nodes_ok[OF this] obtain d where d:
    "in_degree_nodes ?d0 (graph s) = Inr d" "map fst d = map fst ?d0"
    "\<And>x. map_of d x =
        map_option (\<lambda>c. c + int (sum_list (map (\<lambda>(u, vs). count_list vs x) (graph s))))
          (map_of ?d0 x)"
    by blast
  have "\<And>x. map_of d x =
        (if x \<in> fst ` set (graph s) then Some (int (pending (graph s) {} x)) else None)"
    unfolding d(3) map_of_zeroes by (simp add: pending_def)
  with d(1,2) k0 show ?thesis by (simp add: get_in_degree_def)
qed

lemma get_in_degree_not_closed:
  assumes "\<not> closed_graph (graph s)"
  shows "get_in_degree s = Inl KeyError"
proof -
  let ?d0 = "map (\<lambda>u. (u, 0::int)) (map fst (graph s))"
  have "map fst ?d0 = map fst (graph s)" by (simp add: comp_def)
  then have e: "fst ` set ?d0 = fst ` set (graph s)" by (metis set_map)
  from assms have "\<not> list_all (\<lambda>(u, vs). set vs \<subseteq> fst ` set ?d0) (graph s)"
    unfolding closed_graph_iff e .
  from in_degree_nodes_fail[OF this] show ?thesis by (simp add: get_in_degree_def)
qed

section \<open>What the bulk load leaves behind\<close>

lemma loaded_keys: "map fst (map (\<lambda>(k, v). (k, f v)) data) = map fst data"
  by (induction data) auto

lemma loaded_closed_iff:
  "closed_graph (map (\<lambda>(k, v). (k, foldl set_add [] v)) data)
   = list_all (\<lambda>(k, v). set v \<subseteq> fst ` set data) data"
proof -
  have "fst ` set (map (\<lambda>(k, v). (k, foldl set_add [] v)) data) = fst ` set data"
    by force
  then show ?thesis
    unfolding closed_graph_iff
    by (simp add: list_all_iff set_foldl_set_add case_prod_beta)
qed

lemma loaded_dict_of_sets:
  "distinct (map fst data) \<Longrightarrow> dict_of_sets (map (\<lambda>(k, v). (k, foldl set_add [] v)) data)"
proof -
  assume d: "distinct (map fst data)"
  have "list_all (\<lambda>(u, vs). distinct vs) (map (\<lambda>(k, v). (k, foldl set_add [] v)) data)"
    by (simp add: list_all_iff case_prod_beta distinct_foldl_set_add)
  with d show ?thesis
    unfolding dict_of_sets_def loaded_keys by simp
qed

text \<open>
  C7, amended. For a mapping with distinct keys, \<^verbatim>\<open>from_dict\<close> never raises; it resets
  the graph (and the timeout, to 120) and then runs \<^verbatim>\<open>add_node(k)\<close> and, for every
  declared successor, \<^verbatim>\<open>add_edge(k, dep)\<close>. Afterwards the nodes of the graph are
  exactly the keys of the mapping, in their order, and the successor set of each key is
  the set of its declared successors, without repetitions. A declared successor that is
  not itself a key of the mapping is not made a node: the graph is closed, and the
  in-degree computation of a later walk is defined, exactly when every declared
  successor is a key; otherwise \<^verbatim>\<open>_get_in_degree\<close> raises \<^verbatim>\<open>KeyError\<close>.
\<close>

theorem from_dict_loads_declared_keys:
  assumes "distinct (map fst data)"
  shows "from_dict s data =
           (None, s\<lparr>graph := map (\<lambda>(k, v). (k, foldl set_add [] v)) data,
                     wait_timeout := 120\<rparr>) \<and>
         map fst (graph (snd (from_dict s data))) = map fst data \<and>
         (\<forall>(k, v) \<in> set data.
            \<exists>vs. map_of (graph (snd (from_dict s data))) k = Some vs \<and>
                 distinct vs \<and> set vs = set v) \<and>
         dict_of_sets (graph (snd (from_dict s data))) \<and>
         (closed_graph (graph (snd (from_dict s data)))
            \<longleftrightarrow> list_all (\<lambda>(k, v). set v \<subseteq> fst ` set data) data) \<and>
         (get_in_degree (snd (from_dict s data)) = Inl KeyError
            \<longleftrightarrow> \<not> list_all (\<lambda>(k, v). set v \<subseteq> fst ` set data) data)"
proof -
  let ?g = "map (\<lambda>(k, v). (k, foldl set_add [] v)) data"
  let ?s' = "s\<lparr>graph := ?g, wait_timeout := 120\<rparr>"
  have fd: "from_dict s data = (None, ?s')" by (rule from_dict_graph[OF assms])
  then have sn: "snd (from_dict s data) = ?s'" by simp
  have g: "graph ?s' = ?g" by simp
  have keys: "map fst ?g = map fst data" by (rule loaded_keys)
  have succs: "\<forall>(k, v) \<in> set data. \<exists>vs. map_of ?g k = Some vs \<and> distinct vs \<and> set vs = set v"
  proof (clarify)
    fix k v assume kv: "(k, v) \<in> set data"
    have "distinct (map fst ?g)" unfolding keys by (rule assms)
    moreover have "(k, foldl set_add [] v) \<in> set ?g" using kv by force
    ultimately have "map_of ?g k = Some (foldl set_add [] v)" by (rule map_of_is_SomeI)
    then show "\<exists>vs. map_of ?g k = Some vs \<and> distinct vs \<and> set vs = set v"
      by (simp add: distinct_foldl_set_add set_foldl_set_add)
  qed
  have dos: "dict_of_sets ?g" by (rule loaded_dict_of_sets[OF assms])
  have cl: "closed_graph ?g \<longleftrightarrow> list_all (\<lambda>(k, v). set v \<subseteq> fst ` set data) data"
    by (rule loaded_closed_iff)
  have ke: "get_in_degree ?s' = Inl KeyError \<longleftrightarrow> \<not> closed_graph ?g"
  proof (cases "closed_graph ?g")
    case True
    then have "closed_graph (graph ?s')" by simp
    from get_in_degree_closed[OF this] True show ?thesis by auto
  next
    case False
    then have "\<not> closed_graph (graph ?s')" by simp
    from get_in_degree_not_closed[OF this] False show ?thesis by simp
  qed
  show ?thesis
    unfolding sn g using fd keys succs dos cl ke by blast
qed

text \<open>
  C7, as the claim states it, fails: after loading \<^verbatim>\<open>{'a': ['b']}\<close> the referenced
  successor \<open>b\<close> is not a node, and the in-degree computation raises \<^verbatim>\<open>KeyError\<close>.
\<close>

theorem from_dict_omits_successor_nodes:
  "map fst (graph (snd (from_dict new_dag [(''a'', [''b''])]))) = [''a''] \<and>
   get_in_degree (snd (from_dict new_dag [(''a'', [''b''])])) = Inl KeyError"
  by (simp add: from_dict_def reset_def new_dag_def add_node_def add_edge_def setdefault_def
      set_add_def get_in_degree_def)

theorem from_dict_loads_declared_keys_witness:
  "distinct (map fst [(''a'', [''b'']), (''b'', [])]) \<and>
   graph (snd (from_dict new_dag [(''a'', [''b'']), (''b'', [])])) = [(''a'', [''b'']), (''b'', [])] \<and>
   get_in_degree (snd (from_dict new_dag [(''a'', [''b'']), (''b'', [])])) \<noteq> Inl KeyError"
proof -
  let ?data = "[(''a'', [''b'']), (''b'', [])] :: string adjacency"
  have d: "distinct (map fst ?data)" by simp
  note T = from_dict_loads_declared_keys[OF d, of new_dag]
  have "graph (snd (from_dict new_dag ?data)) = ?data"
    unfolding T[THEN conjunct1] by (simp add: set_add_def)
  moreover have "list_all (\<lambda>(k, v). set v \<subseteq> fst ` set ?data) ?data" by simp
  then have "get_in_degree (snd (from_dict new_dag ?data)) \<noteq> Inl KeyError"
    using T by blast
  ultimately show ?thesis using d by blast
qed

section \<open>Reporting completion\<close>

lemma node_done_succs_effect:
  "distinct vs \<Longrightarrow> set vs \<subseteq> fst ` set (run_in_degree t) \<Longrightarrow>
   \<exists>d'. node_done_succs t vs =
          (None, t\<lparr>run_in_degree := d',
                    queue := queue t @ filter (\<lambda>v. map_of (run_in_degree t) v = Some 1) vs\<rparr>) \<and>
        map fst d' = map fst (run_in_degree t) \<and>
        (\<forall>x. map_of d' x =
           (if x \<in> set vs then map_option (\<lambda>c. c - 1) (map_of (run_in_degree t) x)
            else map_of (run_in_degree t) x))"
proof (induction vs arbitrary: t)
  case Nil
  show ?case by (rule exI[of _ "run_in_degree t"]) simp
next
  case (Cons v vs)
  let ?d = "run_in_degree t"
  from Cons.prems have "v \<in> fst ` set ?d" by simp
  then obtain c where c: "map_of ?d v = Some c"
    by (cases "map_of ?d v") (auto simp: map_of_eq_None_iff)
  let ?d1 = "AList.update v (c - 1) ?d"
  let ?t1 = "if c - 1 = 0 then t\<lparr>run_in_degree := ?d1, queue := queue t @ [v]\<rparr>
             else t\<lparr>run_in_degree := ?d1\<rparr>"
  have step: "node_done_succs t (v # vs) = node_done_succs ?t1 vs" using c by simp
  have rd: "run_in_degree ?t1 = ?d1" by simp
  have k1: "map fst ?d1 = map fst ?d" by (rule update_keys_present[OF c])
  have s1: "fst ` set ?d1 = fst ` set ?d" by (rule keys_update_present[OF c])
  have m1: "map_of ?d1 = (map_of ?d)(v \<mapsto> c - 1)" by (rule update_conv')
  from Cons.prems have dv: "distinct vs" "v \<notin> set vs" by simp_all
  from Cons.prems s1 have sub: "set vs \<subseteq> fst ` set (run_in_degree ?t1)"
    unfolding rd by simp
  from Cons.IH[OF dv(1) sub] obtain d' where d':
    "node_done_succs ?t1 vs =
       (None, ?t1\<lparr>run_in_degree := d',
                  queue := queue ?t1 @ filter (\<lambda>x. map_of (run_in_degree ?t1) x = Some 1) vs\<rparr>)"
    "map fst d' = map fst (run_in_degree ?t1)"
    "\<And>x. map_of d' x =
       (if x \<in> set vs then map_option (\<lambda>c. c - 1) (map_of (run_in_degree ?t1) x)
        else map_of (run_in_degree ?t1) x)"
    by blast
  have f: "filter (\<lambda>x. map_of (run_in_degree ?t1) x = Some 1) vs
         = filter (\<lambda>x. map_of ?d x = Some 1) vs"
    unfolding rd m1 using dv(2) by (intro filter_cong) auto
  have q: "?t1\<lparr>run_in_degree := d',
               queue := queue ?t1 @ filter (\<lambda>x. map_of ?d x = Some 1) vs\<rparr>
         = t\<lparr>run_in_degree := d',
              queue := queue t @ filter (\<lambda>x. map_of ?d x = Some 1) (v # vs)\<rparr>"
    using c by simp
  have m: "\<And>x. map_of d' x =
       (if x \<in> set (v # vs) then map_option (\<lambda>c. c - 1) (map_of ?d x) else map_of ?d x)"
  proof -
    fix x
    show "map_of d' x =
       (if x \<in> set (v # vs) then map_option (\<lambda>c. c - 1) (map_of ?d x) else map_of ?d x)"
      unfolding d'(3) rd m1 using c dv(2) by (cases "x = v") auto
  qed
  have "node_done_succs t (v # vs) =
          (None, t\<lparr>run_in_degree := d',
                    queue := queue t @ filter (\<lambda>x. map_of ?d x = Some 1) (v # vs)\<rparr>)"
    unfolding step d'(1) f q ..
  moreover have "map fst d' = map fst ?d" using d'(2) k1 unfolding rd by simp
  ultimately show ?case using m by blast
qed

lemma node_done_effect:
  assumes "traversal s = Some t" "map_of (graph s) x = Some vs" "distinct vs"
    "set vs \<subseteq> fst ` set (run_in_degree t)"
  shows "\<exists>t'. node_done s x = (None, s\<lparr>traversal := Some t'\<rparr>) \<and>
     done_set t' = insert x (done_set t) \<and> it_cnt t' = it_cnt t \<and>
     map fst (run_in_degree t') = map fst (run_in_degree t) \<and>
     (\<forall>v. map_of (run_in_degree t') v =
        (if v \<in> set vs then map_option (\<lambda>c. c - 1) (map_of (run_in_degree t) v)
         else map_of (run_in_degree t) v)) \<and>
     queue t' = queue t @ filter (\<lambda>v. map_of (run_in_degree t) v = Some 1) vs"
proof -
  let ?t1 = "t\<lparr>done_set := insert x (done_set t)\<rparr>"
  have sub: "set vs \<subseteq> fst ` set (run_in_degree ?t1)" using assms(4) by simp
  from node_done_succs_effect[OF assms(3) sub] obtain d' where d':
    "node_done_succs ?t1 vs =
       (None, ?t1\<lparr>run_in_degree := d',
                  queue := queue ?t1 @ filter (\<lambda>v. map_of (run_in_degree ?t1) v = Some 1) vs\<rparr>)"
    "map fst d' = map fst (run_in_degree ?t1)"
    "\<And>v. map_of d' v =
       (if v \<in> set vs then map_option (\<lambda>c. c - 1) (map_of (run_in_degree ?t1) v)
        else map_of (run_in_degree ?t1) v)"
    by blast
  let ?t' = "?t1\<lparr>run_in_degree := d',
                  queue := queue ?t1 @ filter (\<lambda>v. map_of (run_in_degree ?t1) v = Some 1) vs\<rparr>"
  have "node_done s x = (None, s\<lparr>traversal := Some ?t'\<rparr>)"
    using assms(1,2) d'(1) by (simp add: node_done_def)
  moreover have "done_set ?t' = insert x (done_set t)" "it_cnt ?t' = it_cnt t"
    "queue ?t' = queue t @ filter (\<lambda>v. map_of (run_in_degree t) v = Some 1) vs"
    "run_in_degree ?t' = d'"
    by simp_all
  moreover have "map fst d' = map fst (run_in_degree t)" using d'(2) by simp
  moreover have "\<forall>v. map_of d' v =
        (if v \<in> set vs then map_option (\<lambda>c. c - 1) (map_of (run_in_degree t) v)
         else map_of (run_in_degree t) v)" using d'(3) by simp
  ultimately show ?thesis by metis
qed

lemma count_list_distinct: "distinct xs \<Longrightarrow> count_list xs x = (if x \<in> set xs then 1 else 0)"
  by (induction xs) auto

lemma count_list_filter: "count_list (filter P xs) x = (if P x then count_list xs x else 0)"
  by (induction xs) auto

lemma edges_Cons:
  "edges ((k, vs) # g) = {(k, v) | v. v \<in> set vs} \<union> edges g"
  by (auto simp: edges_def)

lemma edges_keys: "(u, v) \<in> edges g \<Longrightarrow> u \<in> fst ` set g"
  by (force simp: edges_def)

lemma finite_prereqs: "finite {u. (u, x) \<in> edges g \<and> u \<notin> R}"
  by (rule finite_subset[of _ "fst ` set g"]) (auto dest: edges_keys)

lemma pending_card:
  "dict_of_sets g \<Longrightarrow> pending g R x = card {u. (u, x) \<in> edges g \<and> u \<notin> R}"
proof (induction g)
  case Nil
  show ?case by (simp add: pending_def edges_def)
next
  case (Cons item g)
  obtain k vs where item: "item = (k, vs)" by (cases item)
  from Cons.prems item have d: "dict_of_sets g" "k \<notin> fst ` set g" "distinct vs"
    by (auto simp: dict_of_sets_def)
  let ?P = "{u. (u, x) \<in> edges g \<and> u \<notin> R}"
  have kP: "k \<notin> ?P" using d(2) by (auto dest: edges_keys)
  have split: "{u. (u, x) \<in> edges (item # g) \<and> u \<notin> R}
       = (if x \<in> set vs \<and> k \<notin> R then insert k ?P else ?P)"
    unfolding item edges_Cons by auto
  have "pending (item # g) R x = (if k \<in> R then 0 else count_list vs x) + pending g R x"
    by (simp add: pending_def item)
  also have "\<dots> = (if x \<in> set vs \<and> k \<notin> R then 1 else 0) + card ?P"
    using Cons.IH[OF d(1)] count_list_distinct[OF d(3), of x] by simp
  also have "\<dots> = card {u. (u, x) \<in> edges (item # g) \<and> u \<notin> R}"
    unfolding split using card_insert_disjoint[OF finite_prereqs[of x g R] kP] by simp
  finally show ?case .
qed

lemma seeds_zero:
  "distinct (map fst d) \<Longrightarrow>
   set (map fst (filter (\<lambda>(k, v). v = 0) d)) = {k. map_of d k = Some (0::int)}"
  by (induction d) (auto simp: image_iff)

lemma seeds_distinct:
  "distinct (map fst d) \<Longrightarrow> distinct (map fst (filter (\<lambda>(k, v). v = (0::int)) d))"
  by (induction d) auto

lemma start_traverse_closed:
  assumes "closed_graph (graph s)"
  shows "\<exists>d. start_traverse s =
           (None, s\<lparr>traversal := Some
              \<lparr>run_in_degree = d, queue = map fst (filter (\<lambda>(k, v). v = 0) d),
               done_set = {}, it_cnt = length (graph s)\<rparr>\<rparr>) \<and>
         map fst d = map fst (graph s) \<and>
         (\<forall>x. map_of d x =
            (if x \<in> fst ` set (graph s) then Some (int (pending (graph s) {} x)) else None))"
proof -
  from get_in_degree_closed[OF assms] obtain d where d:
    "get_in_degree s = Inr d" "map fst d = map fst (graph s)"
    "\<forall>x. map_of d x =
        (if x \<in> fst ` set (graph s) then Some (int (pending (graph s) {} x)) else None)"
    by blast
  from d(1) have "start_traverse s =
           (None, s\<lparr>traversal := Some
              \<lparr>run_in_degree = d, queue = map fst (filter (\<lambda>(k, v). v = 0) d),
               done_set = {}, it_cnt = length (graph s)\<rparr>\<rparr>)"
    by (simp add: start_traverse_def)
  with d(2,3) show ?thesis by blast
qed

lemma edge_entry:
  assumes "dict_of_sets g" "closed_graph g" "(u, v) \<in> edges g"
  shows "\<exists>vs. map_of g u = Some vs \<and> v \<in> set vs \<and> distinct vs \<and> set vs \<subseteq> fst ` set g"
proof -
  from assms(3) obtain vs where vs: "(u, vs) \<in> set g" "v \<in> set vs"
    by (auto simp: edges_def)
  from assms(1) have "distinct (map fst g)" by (simp add: dict_of_sets_def)
  then have "map_of g u = Some vs" using vs(1) by (rule map_of_is_SomeI)
  moreover from assms(1) vs(1) have "distinct vs"
    by (auto simp: dict_of_sets_def list_all_iff)
  moreover from assms(2) vs(1) have "set vs \<subseteq> fst ` set g"
    unfolding closed_graph_iff by (auto simp: list_all_iff)
  ultimately show ?thesis using vs(2) by blast
qed

lemma fan_in:
  assumes dos: "dict_of_sets (graph s)" and cl: "closed_graph (graph s)"
    and pre: "{u. (u, n) \<in> edges (graph s)} = {p, q}" and ne: "p \<noteq> q"
  shows "enqueued (snd (start_traverse s)) n = 0 \<and>
         enqueued (snd (node_done (snd (start_traverse s)) p)) n = 0 \<and>
         enqueued (snd (node_done (snd (node_done (snd (start_traverse s)) p)) q)) n = 1"
proof -
  let ?g = "graph s"
  from pre have ep: "(p, n) \<in> edges ?g" and eq: "(q, n) \<in> edges ?g" by auto
  from edge_entry[OF dos cl ep] obtain vp where vp:
    "map_of ?g p = Some vp" "n \<in> set vp" "distinct vp" "set vp \<subseteq> fst ` set ?g" by blast
  from edge_entry[OF dos cl eq] obtain vq where vq:
    "map_of ?g q = Some vq" "n \<in> set vq" "distinct vq" "set vq \<subseteq> fst ` set ?g" by blast
  from vp have nk: "n \<in> fst ` set ?g" by auto
  have "pending ?g {} n = card {u. (u, n) \<in> edges ?g \<and> u \<notin> {}}" by (rule pending_card[OF dos])
  also have "\<dots> = 2" using pre ne by simp
  finally have p2: "pending ?g {} n = 2" .
  from start_traverse_closed[OF cl] obtain d0 where d0:
    "start_traverse s =
           (None, s\<lparr>traversal := Some
              \<lparr>run_in_degree = d0, queue = map fst (filter (\<lambda>(k, v). v = 0) d0),
               done_set = {}, it_cnt = length ?g\<rparr>\<rparr>)"
    "map fst d0 = map fst ?g"
    "\<forall>x. map_of d0 x = (if x \<in> fst ` set ?g then Some (int (pending ?g {} x)) else None)"
    by blast
  let ?t0 = "\<lparr>run_in_degree = d0, queue = map fst (filter (\<lambda>(k, v). v = 0) d0),
               done_set = {}, it_cnt = length ?g\<rparr>"
  let ?s0 = "s\<lparr>traversal := Some ?t0\<rparr>"
  have s0: "snd (start_traverse s) = ?s0" using d0(1) by simp
  have kd0: "fst ` set d0 = fst ` set ?g" using d0(2) by (metis set_map)
  have n0: "map_of d0 n = Some 2" using d0(3) nk p2 by simp
  have dd0: "distinct (map fst d0)" using d0(2) dos by (simp add: dict_of_sets_def)
  have "n \<notin> set (queue ?t0)" using seeds_zero[OF dd0] n0 by simp
  then have c0: "count_list (queue ?t0) n = 0" by (simp add: count_list_0_iff)
  have sub0: "set vp \<subseteq> fst ` set (run_in_degree ?t0)" using vp(4) kd0 by simp
  have tr0: "traversal ?s0 = Some ?t0" and g0: "map_of (graph ?s0) p = Some vp"
    using vp(1) by simp_all
  from node_done_effect[OF tr0 g0 vp(3) sub0] obtain t1 where t1:
    "node_done ?s0 p = (None, ?s0\<lparr>traversal := Some t1\<rparr>)"
    "map fst (run_in_degree t1) = map fst (run_in_degree ?t0)"
    "\<forall>v. map_of (run_in_degree t1) v =
        (if v \<in> set vp then map_option (\<lambda>c. c - 1) (map_of (run_in_degree ?t0) v)
         else map_of (run_in_degree ?t0) v)"
    "queue t1 = queue ?t0 @ filter (\<lambda>v. map_of (run_in_degree ?t0) v = Some 1) vp"
    by blast
  let ?s1 = "?s0\<lparr>traversal := Some t1\<rparr>"
  have s1: "snd (node_done ?s0 p) = ?s1" using t1(1) by simp
  have c1: "count_list (queue t1) n = 0"
    unfolding t1(4) using c0 n0 by (simp add: count_list_filter)
  have n1: "map_of (run_in_degree t1) n = Some 1" using t1(3) vp(2) n0 by simp
  have "fst ` set (run_in_degree t1) = fst ` set d0" using t1(2) by (metis set_map traverse.select_convs(1))
  then have sub1: "set vq \<subseteq> fst ` set (run_in_degree t1)" using vq(4) kd0 by simp
  have tr1: "traversal ?s1 = Some t1" and g1: "map_of (graph ?s1) q = Some vq"
    using vq(1) by simp_all
  from node_done_effect[OF tr1 g1 vq(3) sub1] obtain t2 where t2:
    "node_done ?s1 q = (None, ?s1\<lparr>traversal := Some t2\<rparr>)"
    "queue t2 = queue t1 @ filter (\<lambda>v. map_of (run_in_degree t1) v = Some 1) vq"
    by blast
  have c2: "count_list (queue t2) n = 1"
    unfolding t2(2) using c1 n1 vq(2) count_list_distinct[OF vq(3), of n]
    by (simp add: count_list_filter)
  have "enqueued ?s0 n = 0" using c0 by (simp add: enqueued_def)
  moreover have "enqueued ?s1 n = 0" using c1 by (simp add: enqueued_def)
  moreover have "enqueued (snd (node_done ?s1 q)) n = 1"
    using c2 t2(1) by (simp add: enqueued_def)
  ultimately show ?thesis unfolding s0 s1 by simp
qed

text \<open>
  C2. In a started traversal, for a node \<open>x\<close> of the graph whose successors all have an
  entry in the in-degree table (as they have after \<^verbatim>\<open>_start_traverse\<close>),
  \<^verbatim>\<open>node_done(x)\<close> returns normally, adds \<open>x\<close> to the completed set, lowers the
  in-degree of every direct successor of \<open>x\<close> by exactly one and of no other node, and
  appends to the ready queue exactly the successors whose in-degree was one before the
  call, that is, is zero after it. Consequently, on a graph in which \<open>n\<close> has exactly the
  two prerequisites \<open>p\<close> and \<open>q\<close>, \<open>n\<close> is not in the queue when the traversal starts,
  is still not in it after the first of the two completions, and is in it exactly once
  after the second, in whichever order \<open>p\<close> and \<open>q\<close> complete.
\<close>

theorem node_done_decrements_and_enqueues:
  "(traversal s = Some t \<and> map_of (graph s) x = Some vs \<and> distinct vs \<and>
    set vs \<subseteq> fst ` set (run_in_degree t) \<longrightarrow>
      (\<exists>t'. node_done s x = (None, s\<lparr>traversal := Some t'\<rparr>) \<and>
         done_set t' = insert x (done_set t) \<and> it_cnt t' = it_cnt t \<and>
         map fst (run_in_degree t') = map fst (run_in_degree t) \<and>
         (\<forall>v. map_of (run_in_degree t') v =
            (if v \<in> set vs then map_option (\<lambda>c. c - 1) (map_of (run_in_degree t) v)
             else map_of (run_in_degree t) v)) \<and>
         queue t' = queue t @ filter (\<lambda>v. map_of (run_in_degree t) v = Some 1) vs)) \<and>
   (dict_of_sets (graph g) \<and> closed_graph (graph g) \<and>
    {u. (u, n) \<in> edges (graph g)} = {p, q} \<and> p \<noteq> q \<longrightarrow>
      enqueued (snd (start_traverse g)) n = 0 \<and>
      enqueued (snd (node_done (snd (start_traverse g)) p)) n = 0 \<and>
      enqueued (snd (node_done (snd (node_done (snd (start_traverse g)) p)) q)) n = 1 \<and>
      enqueued (snd (node_done (snd (start_traverse g)) q)) n = 0 \<and>
      enqueued (snd (node_done (snd (node_done (snd (start_traverse g)) q)) p)) n = 1)"
proof (intro conjI impI)
  assume "traversal s = Some t \<and> map_of (graph s) x = Some vs \<and> distinct vs \<and>
    set vs \<subseteq> fst ` set (run_in_degree t)"
  then show "\<exists>t'. node_done s x = (None, s\<lparr>traversal := Some t'\<rparr>) \<and>
         done_set t' = insert x (done_set t) \<and> it_cnt t' = it_cnt t \<and>
         map fst (run_in_degree t') = map fst (run_in_degree t) \<and>
         (\<forall>v. map_of (run_in_degree t') v =
            (if v \<in> set vs then map_option (\<lambda>c. c - 1) (map_of (run_in_degree t) v)
             else map_of (run_in_degree t) v)) \<and>
         queue t' = queue t @ filter (\<lambda>v. map_of (run_in_degree t) v = Some 1) vs"
    using node_done_effect[of s t x vs] by blast
next
  assume a: "dict_of_sets (graph g) \<and> closed_graph (graph g) \<and>
    {u. (u, n) \<in> edges (graph g)} = {p, q} \<and> p \<noteq> q"
  then have b: "{u. (u, n) \<in> edges (graph g)} = {q, p}" "q \<noteq> p" by auto
  from a fan_in[of g n p q]
  show "enqueued (snd (start_traverse g)) n = 0"
    "enqueued (snd (node_done (snd (start_traverse g)) p)) n = 0"
    "enqueued (snd (node_done (snd (node_done (snd (start_traverse g)) p)) q)) n = 1"
    by blast+
  from a b fan_in[of g n q p]
  show "enqueued (snd (node_done (snd (start_traverse g)) q)) n = 0"
    "enqueued (snd (node_done (snd (node_done (snd (start_traverse g)) q)) p)) n = 1"
    by blast+
qed

text \<open>The fan-in graph \<^verbatim>\<open>{'p': ['n'], 'q': ['n'], 'n': []}\<close>.\<close>

theorem node_done_decrements_and_enqueues_witness:
  "start_traverse fan_in_dag =
     (None, fan_in_dag\<lparr>traversal := Some
        \<lparr>run_in_degree = [(''p'', 0), (''q'', 0), (''n'', 2)], queue = [''p'', ''q''],
         done_set = {}, it_cnt = 3\<rparr>\<rparr>) \<and>
   fst (node_done (snd (start_traverse fan_in_dag)) ''p'') = None \<and>
   enqueued (snd (start_traverse fan_in_dag)) ''n'' = 0 \<and>
   enqueued (snd (node_done (snd (start_traverse fan_in_dag)) ''p'')) ''n'' = 0 \<and>
   enqueued (snd (node_done (snd (node_done (snd (start_traverse fan_in_dag)) ''p'')) ''q'')) ''n'' = 1 \<and>
   enqueued (snd (node_done (snd (start_traverse fan_in_dag)) ''q'')) ''n'' = 0 \<and>
   enqueued (snd (node_done (snd (node_done (snd (start_traverse fan_in_dag)) ''q'')) ''p'')) ''n'' = 1"
proof -
  let ?t0 = "\<lparr>run_in_degree = [(''p'', 0), (''q'', 0), (''n'', 2::int)], queue = [''p'', ''q''],
         done_set = {}, it_cnt = 3\<rparr>"
  let ?s0 = "fan_in_dag\<lparr>traversal := Some ?t0\<rparr>"
  have st: "start_traverse fan_in_dag = (None, ?s0)"
    by (simp add: start_traverse_def get_in_degree_def fan_in_dag_def)
  have A: "traversal ?s0 = Some ?t0 \<and> map_of (graph ?s0) ''p'' = Some [''n''] \<and>
      distinct [''n''] \<and> set [''n''] \<subseteq> fst ` set (run_in_degree ?t0)"
    by (simp add: fan_in_dag_def)
  have e: "{u. (u, ''n'') \<in> edges (graph fan_in_dag)} = {''p'', ''q''}"
    by (auto simp: edges_def fan_in_dag_def)
  have B: "dict_of_sets (graph fan_in_dag) \<and> closed_graph (graph fan_in_dag) \<and>
      {u. (u, ''n'') \<in> edges (graph fan_in_dag)} = {''p'', ''q''} \<and> ''p'' \<noteq> ''q''"
    unfolding e by (simp add: dict_of_sets_def closed_graph_def fan_in_dag_def)
  note T = node_done_decrements_and_enqueues
    [of ?s0 ?t0 "''p''" "[''n'']" fan_in_dag "''n''" "''p''" "''q''"]
  from T[THEN conjunct1, THEN mp, OF A]
  obtain t' where "node_done ?s0 ''p'' = (None, ?s0\<lparr>traversal := Some t'\<rparr>)" by blast
  then have "fst (node_done (snd (start_traverse fan_in_dag)) ''p'') = None"
    unfolding st by simp
  with st T[THEN conjunct2, THEN mp, OF B] show ?thesis by blast
qed

section \<open>Pulling: how many nodes, and when a pull fails\<close>

lemma node_done_succs_ready_once:
  "node_done_succs t vs = (r, t') \<Longrightarrow> ready_once t ys \<Longrightarrow> ready_once t' ys"
proof (induction t vs arbitrary: r t' rule: node_done_succs.induct)
  case (1 t)
  then show ?case by simp
next
  case (2 t v vs)
  show ?case
  proof (cases "map_of (run_in_degree t) v")
    case None
    with "2.prems" show ?thesis by simp
  next
    case (Some c)
    let ?d1 = "AList.update v (c - 1) (run_in_degree t)"
    let ?t1 = "if c - 1 = 0 then t\<lparr>run_in_degree := ?d1, queue := queue t @ [v]\<rparr>
               else t\<lparr>run_in_degree := ?d1\<rparr>"
    have m1: "map_of ?d1 = (map_of (run_in_degree t))(v \<mapsto> c - 1)" by (rule update_conv')
    have step: "node_done_succs ?t1 vs = (r, t')" using "2.prems"(1) Some by simp
    have "ready_once ?t1 ys"
    proof (cases "c - 1 = 0")
      case True
      then have c1: "c = 1" by simp
      have fresh: "v \<notin> set (ys @ queue t)"
      proof
        assume "v \<in> set (ys @ queue t)"
        with "2.prems"(2) obtain c' where "map_of (run_in_degree t) v = Some c'" "c' \<le> 0"
          unfolding ready_once_def by blast
        with Some c1 show False by simp
      qed
      have "distinct (ys @ queue t @ [v])" using "2.prems"(2) fresh
        unfolding ready_once_def by auto
      moreover have "\<forall>w \<in> set (ys @ queue t @ [v]). \<exists>c'. map_of ?d1 w = Some c' \<and> c' \<le> 0"
        using "2.prems"(2) c1 unfolding ready_once_def m1 by auto
      ultimately show ?thesis using True by (simp add: ready_once_def)
    next
      case False
      have "\<forall>w \<in> set (ys @ queue t). \<exists>c'. map_of ?d1 w = Some c' \<and> c' \<le> 0"
      proof
        fix w assume w: "w \<in> set (ys @ queue t)"
        with "2.prems"(2) obtain c' where c': "map_of (run_in_degree t) w = Some c'" "c' \<le> 0"
          unfolding ready_once_def by blast
        show "\<exists>c'. map_of ?d1 w = Some c' \<and> c' \<le> 0"
        proof (cases "w = v")
          case True
          with c' Some have "c \<le> 0" by simp
          then show ?thesis unfolding m1 using True by simp
        next
          case False
          then show ?thesis unfolding m1 using c' by simp
        qed
      qed
      then show ?thesis using False "2.prems"(2) by (simp add: ready_once_def)
    qed
    from "2.IH"[OF Some step this] show ?thesis .
  qed
qed

lemma node_done_ready_once:
  assumes "traversal s = Some t" "ready_once t ys"
  shows "\<exists>t'. traversal (snd (node_done s x)) = Some t' \<and> ready_once t' ys \<and>
              it_cnt t' = it_cnt t"
proof (cases "map_of (graph s) x")
  case None
  have "ready_once (t\<lparr>done_set := insert x (done_set t)\<rparr>) ys"
    using assms(2) by (simp add: ready_once_def)
  then show ?thesis using assms(1) None by (simp add: node_done_def)
next
  case (Some vs)
  let ?t1 = "t\<lparr>done_set := insert x (done_set t)\<rparr>"
  obtain r t' where n: "node_done_succs ?t1 vs = (r, t')" by (cases "node_done_succs ?t1 vs")
  have "ready_once ?t1 ys" using assms(2) by (simp add: ready_once_def)
  from node_done_succs_ready_once[OF n this] node_done_succs_it_cnt[OF n]
  show ?thesis using assms(1) Some n by (simp add: node_done_def)
qed

lemma next_step_cases:
  assumes "traversal s = Some t"
  shows "(it_cnt t = 0 \<and> next_step s = (Inl StopIteration, s)) \<or>
         (it_cnt t > 0 \<and> queue t = [] \<and>
            next_step s = (Inl SDKException, s\<lparr>traversal := Some (t\<lparr>it_cnt := it_cnt t - 1\<rparr>)\<rparr>)) \<or>
         (\<exists>x q. it_cnt t > 0 \<and> queue t = x # q \<and>
            next_step s = (Inr x, s\<lparr>traversal := Some (t\<lparr>queue := q, it_cnt := it_cnt t - 1\<rparr>)\<rparr>))"
  using assms by (cases "queue t") (auto simp: next_step_def)

lemma run_ready_once:
  "traversal s = Some t \<Longrightarrow> ready_once t ys \<Longrightarrow>
   it_cnt t + length ys + k = n \<Longrightarrow> run s cs = (rs, s') \<Longrightarrow>
   \<exists>t'. traversal s' = Some t' \<and> ready_once t' (ys @ yielded rs) \<and>
        it_cnt t' + length (ys @ yielded rs) + k + count_list rs (Inl SDKException) = n"
proof (induction cs arbitrary: s t ys k rs)
  case Nil
  then show ?case by simp
next
  case (Cons c cs)
  show ?case
  proof (cases c)
    case (Done x)
    from node_done_ready_once[OF Cons.prems(1,2), of x] obtain t1 where t1:
      "traversal (snd (node_done s x)) = Some t1" "ready_once t1 ys" "it_cnt t1 = it_cnt t"
      by blast
    have r: "run (snd (node_done s x)) cs = (rs, s')"
      using Cons.prems(4) Done by (simp split: prod.splits)
    from t1(3) Cons.prems(3) have "it_cnt t1 + length ys + k = n" by simp
    from Cons.IH[OF t1(1,2) this r] show ?thesis .
  next
    case Pull
    obtain o1 s1 where n1: "next_step s = (o1, s1)" by (cases "next_step s")
    obtain rs1 where r1: "run s1 cs = (rs1, s')" and rs: "rs = o1 # rs1"
      using Cons.prems(4) Pull n1 by (auto split: prod.splits)
    from next_step_cases[OF Cons.prems(1)]
    consider (stop) "it_cnt t = 0" "next_step s = (Inl StopIteration, s)"
      | (timeout) "it_cnt t > 0" "queue t = []"
          "next_step s = (Inl SDKException, s\<lparr>traversal := Some (t\<lparr>it_cnt := it_cnt t - 1\<rparr>)\<rparr>)"
      | (yield) x q where "it_cnt t > 0" "queue t = x # q"
          "next_step s = (Inr x, s\<lparr>traversal := Some (t\<lparr>queue := q, it_cnt := it_cnt t - 1\<rparr>)\<rparr>)"
      by (elim disjE conjE exE) blast+
    then show ?thesis
    proof cases
      case stop
      with n1 have e: "o1 = Inl StopIteration" "s1 = s" by simp_all
      from Cons.IH[OF Cons.prems(1,2,3) r1[unfolded e]] show ?thesis
        unfolding rs e by simp
    next
      case timeout
      let ?t1 = "t\<lparr>it_cnt := it_cnt t - 1\<rparr>"
      from timeout n1 have e: "o1 = Inl SDKException" "s1 = s\<lparr>traversal := Some ?t1\<rparr>"
        by simp_all
      have tr: "traversal s1 = Some ?t1" unfolding e by simp
      have ro: "ready_once ?t1 ys" using Cons.prems(2) by (simp add: ready_once_def)
      have cnt: "it_cnt ?t1 + length ys + Suc k = n" using Cons.prems(3) timeout(1) by simp
      from Cons.IH[OF tr ro cnt r1] show ?thesis unfolding rs e by simp
    next
      case (yield x q)
      let ?t1 = "t\<lparr>queue := q, it_cnt := it_cnt t - 1\<rparr>"
      from yield n1 have e: "o1 = Inr x" "s1 = s\<lparr>traversal := Some ?t1\<rparr>" by simp_all
      have tr: "traversal s1 = Some ?t1" unfolding e by simp
      have ro: "ready_once ?t1 (ys @ [x])"
        using Cons.prems(2) yield(2) by (simp add: ready_once_def)
      have cnt: "it_cnt ?t1 + length (ys @ [x]) + k = n" using Cons.prems(3) yield(1) by simp
      from Cons.IH[OF tr ro cnt r1] show ?thesis unfolding rs e by simp
    qed
  qed
qed

lemma node_done_succs_keys:
  "node_done_succs t vs = (r, t') \<Longrightarrow>
   fst ` set (run_in_degree t') = fst ` set (run_in_degree t)"
proof (induction t vs arbitrary: r t' rule: node_done_succs.induct)
  case (1 t)
  then show ?case by simp
next
  case (2 t v vs)
  show ?case
  proof (cases "map_of (run_in_degree t) v")
    case None
    with "2.prems" show ?thesis by simp
  next
    case (Some c)
    let ?d1 = "AList.update v (c - 1) (run_in_degree t)"
    let ?t1 = "if c - 1 = 0 then t\<lparr>run_in_degree := ?d1, queue := queue t @ [v]\<rparr>
               else t\<lparr>run_in_degree := ?d1\<rparr>"
    have step: "node_done_succs ?t1 vs = (r, t')" using "2.prems"(1) Some by simp
    have "fst ` set (run_in_degree ?t1) = fst ` set (run_in_degree t)"
      using keys_update_present[OF Some, of "c - 1"] by (cases "c - 1 = 0") simp_all
    with "2.IH"[OF Some step] show ?thesis by simp
  qed
qed

lemma node_done_keys:
  assumes "traversal s = Some t"
  shows "\<exists>t'. traversal (snd (node_done s x)) = Some t' \<and>
              fst ` set (run_in_degree t') = fst ` set (run_in_degree t)"
proof (cases "map_of (graph s) x")
  case None
  then show ?thesis using assms by (simp add: node_done_def)
next
  case (Some vs)
  let ?t1 = "t\<lparr>done_set := insert x (done_set t)\<rparr>"
  obtain r t' where n: "node_done_succs ?t1 vs = (r, t')" by (cases "node_done_succs ?t1 vs")
  from node_done_succs_keys[OF n] show ?thesis using assms Some n by (simp add: node_done_def)
qed

lemma next_step_keys:
  assumes "traversal s = Some t"
  shows "\<exists>t'. traversal (snd (next_step s)) = Some t' \<and>
              fst ` set (run_in_degree t') = fst ` set (run_in_degree t)"
  using assms by (cases "queue t") (auto simp: next_step_def)

lemma run_keys:
  "traversal s = Some t \<Longrightarrow> run s cs = (rs, s') \<Longrightarrow>
   \<exists>t'. traversal s' = Some t' \<and> fst ` set (run_in_degree t') = fst ` set (run_in_degree t)"
proof (induction cs arbitrary: s t rs)
  case Nil
  then show ?case by simp
next
  case (Cons c cs)
  show ?case
  proof (cases c)
    case (Done x)
    from node_done_keys[OF Cons.prems(1), of x] obtain t1 where t1:
      "traversal (snd (node_done s x)) = Some t1"
      "fst ` set (run_in_degree t1) = fst ` set (run_in_degree t)" by blast
    have r: "run (snd (node_done s x)) cs = (rs, s')"
      using Cons.prems(2) Done by (simp split: prod.splits)
    from Cons.IH[OF t1(1) r] t1(2) show ?thesis by simp
  next
    case Pull
    from next_step_keys[OF Cons.prems(1)] obtain t1 where t1:
      "traversal (snd (next_step s)) = Some t1"
      "fst ` set (run_in_degree t1) = fst ` set (run_in_degree t)" by blast
    obtain rs1 where r: "run (snd (next_step s)) cs = (rs1, s')"
      using Cons.prems(2) Pull by (auto split: prod.splits)
    from Cons.IH[OF t1(1) r] t1(2) show ?thesis by simp
  qed
qed

lemma start_traverse_started:
  assumes "start_traverse s = (None, s0)" "distinct (map fst (graph s))"
  shows "\<exists>t0. traversal s0 = Some t0 \<and> graph s0 = graph s \<and> it_cnt t0 = length (graph s) \<and>
     ready_once t0 [] \<and> fst ` set (run_in_degree t0) = fst ` set (graph s)"
proof -
  have cl: "closed_graph (graph s)"
  proof (rule ccontr)
    assume "\<not> closed_graph (graph s)"
    from get_in_degree_not_closed[OF this] assms(1) show False
      by (simp add: start_traverse_def)
  qed
  from start_traverse_closed[OF cl] assms(1) obtain d where d:
    "s0 = s\<lparr>traversal := Some
              \<lparr>run_in_degree = d, queue = map fst (filter (\<lambda>(k, v). v = 0) d),
               done_set = {}, it_cnt = length (graph s)\<rparr>\<rparr>"
    "map fst d = map fst (graph s)"
    by auto
  let ?t0 = "\<lparr>run_in_degree = d, queue = map fst (filter (\<lambda>(k, v). v = 0) d),
               done_set = {}, it_cnt = length (graph s)\<rparr>"
  have dd: "distinct (map fst d)" using d(2) assms(2) by simp
  have "ready_once ?t0 []"
    using seeds_distinct[OF dd] seeds_zero[OF dd] by (auto simp: ready_once_def)
  moreover have "fst ` set (run_in_degree ?t0) = fst ` set (graph s)"
    using d(2) by (metis set_map traverse.select_convs(1))
  ultimately show ?thesis unfolding d(1) by simp
qed

text \<open>
  Callers whose completion reports do not overlap: every \<open>Done\<close> of \<open>run\<close> is one
  whole call of \<^verbatim>\<open>node_done\<close>, with no other thread in between. On a graph with
  \<open>N\<close> nodes, whatever pulls and completion reports such a caller makes after
  starting a traversal, the nodes yielded so far are at most \<open>N\<close>, are nodes of the
  graph, and no node is yielded twice. Once \<open>N\<close> nodes have been yielded, the next pull
  raises \<^verbatim>\<open>StopIteration\<close> and changes nothing: it neither yields nor waits for
  the queue. On a graph without nodes the first pull already does so.
\<close>

lemma sequential_reports_yield_each_node_once:
  assumes "distinct (map fst (graph s))" and "start_traverse s = (None, s0)"
    and "run s0 cs = (rs, s1)"
  shows "length (yielded rs) \<le> length (graph s) \<and>
         distinct (yielded rs) \<and>
         set (yielded rs) \<subseteq> fst ` set (graph s) \<and>
         (length (yielded rs) = length (graph s) \<longrightarrow> next_step s1 = (Inl StopIteration, s1)) \<and>
         (graph s = [] \<longrightarrow> next_step s0 = (Inl StopIteration, s0))"
proof -
  from start_traverse_started[OF assms(2,1)] obtain t0 where t0:
    "traversal s0 = Some t0" "it_cnt t0 = length (graph s)" "ready_once t0 []"
    "fst ` set (run_in_degree t0) = fst ` set (graph s)" by blast
  have c0: "it_cnt t0 + length ([] :: 'a list) + 0 = length (graph s)" using t0(2) by simp
  from run_ready_once[OF t0(1,3) c0 assms(3)] obtain t1 where t1:
    "traversal s1 = Some t1" "ready_once t1 (yielded rs)"
    "it_cnt t1 + length (yielded rs) + count_list rs (Inl SDKException) = length (graph s)"
    by auto
  from run_keys[OF t0(1) assms(3)] t1(1) t0(4)
  have k1: "fst ` set (run_in_degree t1) = fst ` set (graph s)" by simp
  have "length (yielded rs) \<le> length (graph s)" using t1(3) by simp
  moreover have "distinct (yielded rs)" using t1(2) by (simp add: ready_once_def)
  moreover have "set (yielded rs) \<subseteq> fst ` set (graph s)"
  proof
    fix v assume "v \<in> set (yielded rs)"
    with t1(2) obtain c where "map_of (run_in_degree t1) v = Some c"
      unfolding ready_once_def by auto
    then have "v \<in> fst ` set (run_in_degree t1)"
      by (metis map_of_eq_None_iff option.distinct(1))
    then show "v \<in> fst ` set (graph s)" unfolding k1 .
  qed
  moreover have "length (yielded rs) = length (graph s) \<longrightarrow> next_step s1 = (Inl StopIteration, s1)"
  proof
    assume "length (yielded rs) = length (graph s)"
    with t1(3) have "it_cnt t1 = 0" by simp
    then show "next_step s1 = (Inl StopIteration, s1)" using t1(1) by (simp add: next_step_def)
  qed
  moreover have "graph s = [] \<longrightarrow> next_step s0 = (Inl StopIteration, s0)"
    using t0(1,2) by (simp add: next_step_def)
  ultimately show ?thesis by blast
qed

text \<open>
  C4. A pull raises \<^verbatim>\<open>SDKException\<close> exactly when it waits on a ready queue that
  stays empty: the countdown is positive and the queue is empty. In a traversal in
  which no earlier pull has timed out and fewer than \<open>N\<close> nodes have been yielded, the
  countdown is positive, so a pull on an empty queue raises \<^verbatim>\<open>SDKException\<close>
  (after decrementing the countdown) and neither yields nor raises
  \<^verbatim>\<open>StopIteration\<close>, while a pull on a non-empty queue yields its head.
\<close>

theorem timeout_raises_sdk_exception:
  "(traversal (s' :: 'a tinydag) = Some t \<longrightarrow>
      (fst (next_step s') = Inl SDKException \<longleftrightarrow> 0 < it_cnt t \<and> queue t = [])) \<and>
   (distinct (map fst (graph (s :: 'a tinydag))) \<and> start_traverse s = (None, s0) \<and> run s0 cs = (rs, s1) \<and>
    Inl SDKException \<notin> set rs \<and> length (yielded rs) < length (graph s) \<longrightarrow>
      (\<exists>t1. traversal s1 = Some t1 \<and> 0 < it_cnt t1 \<and>
         (queue t1 = [] \<longrightarrow>
            next_step s1 =
              (Inl SDKException, s1\<lparr>traversal := Some (t1\<lparr>it_cnt := it_cnt t1 - 1\<rparr>)\<rparr>)) \<and>
         (queue t1 \<noteq> [] \<longrightarrow> fst (next_step s1) = Inr (hd (queue t1)))))"
proof (intro conjI impI)
  assume "traversal s' = Some t"
  from next_step_cases[OF this]
  show "fst (next_step s') = Inl SDKException \<longleftrightarrow> 0 < it_cnt t \<and> queue t = []"
    by (elim disjE conjE exE) simp_all
next
  assume a: "distinct (map fst (graph s)) \<and> start_traverse s = (None, s0) \<and>
    run s0 cs = (rs, s1) \<and> Inl SDKException \<notin> set rs \<and> length (yielded rs) < length (graph s)"
  then have a1: "distinct (map fst (graph s))" and a2: "start_traverse s = (None, s0)"
    and a3: "run s0 cs = (rs, s1)" and a4: "Inl SDKException \<notin> set rs"
    and a5: "length (yielded rs) < length (graph s)" by simp_all
  from start_traverse_started[OF a2 a1] obtain t0 where t0:
    "traversal s0 = Some t0" "it_cnt t0 = length (graph s)" "ready_once t0 []" by blast
  have c0: "it_cnt t0 + length ([] :: 'a list) + 0 = length (graph s)" using t0(2) by simp
  from run_ready_once[OF t0(1,3) c0 a3] obtain t1 where t1:
    "traversal s1 = Some t1"
    "it_cnt t1 + length (yielded rs) + count_list rs (Inl SDKException) = length (graph s)"
    by auto
  from a4 have "count_list rs (Inl SDKException) = 0" by (simp add: count_list_0_iff)
  with t1(2) a5 have pos: "0 < it_cnt t1" by simp
  have "queue t1 = [] \<longrightarrow>
      next_step s1 = (Inl SDKException, s1\<lparr>traversal := Some (t1\<lparr>it_cnt := it_cnt t1 - 1\<rparr>)\<rparr>)"
    using t1(1) pos by (simp add: next_step_def)
  moreover have "queue t1 \<noteq> [] \<longrightarrow> fst (next_step s1) = Inr (hd (queue t1))"
    using t1(1) pos by (cases "queue t1") (simp_all add: next_step_def)
  ultimately show "\<exists>t1. traversal s1 = Some t1 \<and> 0 < it_cnt t1 \<and>
         (queue t1 = [] \<longrightarrow>
            next_step s1 =
              (Inl SDKException, s1\<lparr>traversal := Some (t1\<lparr>it_cnt := it_cnt t1 - 1\<rparr>)\<rparr>)) \<and>
         (queue t1 \<noteq> [] \<longrightarrow> fst (next_step s1) = Inr (hd (queue t1)))"
    using t1(1) pos by blast
qed

text \<open>
  The chain \<^verbatim>\<open>{'a': ['b'], 'b': []}\<close> driven as \<^verbatim>\<open>topological_sort\<close> drives it,
  and the empty graph.
\<close>

lemma sequential_reports_yield_each_node_once_example:
  "distinct (map fst (graph chain_dag)) \<and>
   fst (start_traverse chain_dag) = None \<and>
   yielded (fst (run (snd (start_traverse chain_dag)) [Pull, Done ''a'', Pull, Done ''b'']))
     = [''a'', ''b''] \<and>
   fst (next_step (snd (run (snd (start_traverse chain_dag)) [Pull, Done ''a'', Pull, Done ''b''])))
     = Inl StopIteration \<and>
   graph (new_dag :: string tinydag) = [] \<and>
   fst (next_step (snd (start_traverse (new_dag :: string tinydag)))) = Inl StopIteration"
proof -
  let ?t0 = "\<lparr>run_in_degree = [(''a'', 0), (''b'', 1::int)], queue = [''a''],
              done_set = {}, it_cnt = 2\<rparr>"
  let ?s0 = "chain_dag\<lparr>traversal := Some ?t0\<rparr>"
  let ?t1 = "\<lparr>run_in_degree = [(''a'', 0), (''b'', 0::int)], queue = [],
              done_set = {''b'', ''a''}, it_cnt = 0\<rparr>"
  let ?s1 = "chain_dag\<lparr>traversal := Some ?t1\<rparr>"
  let ?cs = "[Pull, Done ''a'', Pull, Done ''b'']"
  have d: "distinct (map fst (graph chain_dag))" by (simp add: chain_dag_def)
  have st: "start_traverse chain_dag = (None, ?s0)"
    by (simp add: start_traverse_def get_in_degree_def chain_dag_def)
  have rn: "run ?s0 ?cs = ([Inr ''a'', Inr ''b''], ?s1)"
    by (simp add: next_step_def node_done_def chain_dag_def)
  have y: "length (yielded [Inr ''a'', Inr ''b'' :: error + string]) = length (graph chain_dag)"
    by (simp add: chain_dag_def)
  note T = sequential_reports_yield_each_node_once[OF d st rn]
  from T y have n: "next_step ?s1 = (Inl StopIteration, ?s1)" by blast
  let ?e = "new_dag :: string tinydag"
  have de: "distinct (map fst (graph ?e))" and ge: "graph ?e = []"
    by (simp_all add: new_dag_def)
  have ste: "start_traverse ?e = (None, snd (start_traverse ?e))"
    by (simp add: start_traverse_def get_in_degree_def new_dag_def)
  have rne: "run (snd (start_traverse ?e)) [] = ([], snd (start_traverse ?e))" by simp
  note E = sequential_reports_yield_each_node_once[OF de ste rne]
  from E ge have "next_step (snd (start_traverse ?e)) = (Inl StopIteration, snd (start_traverse ?e))"
    by blast
  then have ne: "fst (next_step (snd (start_traverse ?e))) = Inl StopIteration" by simp
  have "fst (start_traverse chain_dag) = None" unfolding st by simp
  moreover have "yielded (fst (run (snd (start_traverse chain_dag)) ?cs)) = [''a'', ''b'']"
    unfolding st snd_conv rn by simp
  moreover have "fst (next_step (snd (run (snd (start_traverse chain_dag)) ?cs))) = Inl StopIteration"
    unfolding st snd_conv rn n by simp
  ultimately show ?thesis using d ge ne by blast
qed

text \<open>
  The cycle \<^verbatim>\<open>{'a': ['b'], 'b': ['a']}\<close>, where no node is ever ready, and the chain
  \<^verbatim>\<open>{'a': ['b'], 'b': []}\<close> when the completion of the yielded \<open>a\<close> is never
  reported.
\<close>

theorem timeout_raises_sdk_exception_witness:
  "distinct (map fst (graph cycle_dag)) \<and>
   fst (start_traverse cycle_dag) = None \<and>
   length (yielded (fst (run (snd (start_traverse cycle_dag)) []))) < length (graph cycle_dag) \<and>
   fst (next_step (snd (start_traverse cycle_dag))) = Inl SDKException \<and>
   distinct (map fst (graph chain_dag)) \<and>
   fst (run (snd (start_traverse chain_dag)) [Pull]) = [Inr ''a''] \<and>
   fst (next_step (snd (run (snd (start_traverse chain_dag)) [Pull]))) = Inl SDKException"
proof -
  let ?t0 = "\<lparr>run_in_degree = [(''a'', 1), (''b'', 1::int)], queue = [],
              done_set = {}, it_cnt = 2\<rparr>"
  let ?s0 = "cycle_dag\<lparr>traversal := Some ?t0\<rparr>"
  have d: "distinct (map fst (graph cycle_dag))" by (simp add: cycle_dag_def)
  have st: "start_traverse cycle_dag = (None, ?s0)"
    by (simp add: start_traverse_def get_in_degree_def cycle_dag_def)
  have rn: "run ?s0 [] = ([], ?s0)" by simp
  have nt: "Inl SDKException \<notin> set ([] :: (error + string) list)" by simp
  have lt: "length (yielded ([] :: (error + string) list)) < length (graph cycle_dag)"
    by (simp add: cycle_dag_def)
  from timeout_raises_sdk_exception[of ?s0 ?t0 cycle_dag ?s0 "[]" "[]" ?s0, THEN conjunct2]
    d st rn nt lt
  obtain t1 where t1: "traversal ?s0 = Some t1"
    "queue t1 = [] \<longrightarrow>
       next_step ?s0 = (Inl SDKException, ?s0\<lparr>traversal := Some (t1\<lparr>it_cnt := it_cnt t1 - 1\<rparr>)\<rparr>)"
    by blast
  from t1(1) have "queue t1 = []" by auto
  with t1(2) have c1: "fst (next_step ?s0) = Inl SDKException" by simp
  let ?u0 = "\<lparr>run_in_degree = [(''a'', 0), (''b'', 1::int)], queue = [''a''],
              done_set = {}, it_cnt = 2\<rparr>"
  let ?r0 = "chain_dag\<lparr>traversal := Some ?u0\<rparr>"
  let ?u1 = "\<lparr>run_in_degree = [(''a'', 0), (''b'', 1::int)], queue = [],
              done_set = {}, it_cnt = 1\<rparr>"
  let ?r1 = "chain_dag\<lparr>traversal := Some ?u1\<rparr>"
  have d2: "distinct (map fst (graph chain_dag))" by (simp add: chain_dag_def)
  have st2: "start_traverse chain_dag = (None, ?r0)"
    by (simp add: start_traverse_def get_in_degree_def chain_dag_def)
  have rn2: "run ?r0 [Pull] = ([Inr ''a''], ?r1)"
    by (simp add: next_step_def)
  have nt2: "Inl SDKException \<notin> set [Inr ''a'' :: error + string]" by simp
  have lt2: "length (yielded [Inr ''a'' :: error + string]) < length (graph chain_dag)"
    by (simp add: chain_dag_def)
  from timeout_raises_sdk_exception[of ?r0 ?u0 chain_dag ?r0 "[Pull]" "[Inr ''a'']" ?r1,
      THEN conjunct2] d2 st2 rn2 nt2 lt2
  obtain u where u: "traversal ?r1 = Some u"
    "queue u = [] \<longrightarrow>
       next_step ?r1 = (Inl SDKException, ?r1\<lparr>traversal := Some (u\<lparr>it_cnt := it_cnt u - 1\<rparr>)\<rparr>)"
    by blast
  from u(1) have "queue u = []" by auto
  with u(2) have c2: "fst (next_step ?r1) = Inl SDKException" by simp
  have "fst (start_traverse cycle_dag) = None" unfolding st by simp
  moreover have "length (yielded (fst (run (snd (start_traverse cycle_dag)) [])))
      < length (graph cycle_dag)" using lt by simp
  moreover have "fst (next_step (snd (start_traverse cycle_dag))) = Inl SDKException"
    unfolding st snd_conv by (rule c1)
  moreover have "fst (run (snd (start_traverse chain_dag)) [Pull]) = [Inr ''a'']"
    unfolding st2 snd_conv rn2 by simp
  moreover have "fst (next_step (snd (run (snd (start_traverse chain_dag)) [Pull]))) = Inl SDKException"
    unfolding st2 snd_conv rn2 by (rule c2)
  ultimately show ?thesis using d d2 by blast
qed

section \<open>The loop of the topological sort\<close>

lemma index_of_less: "x \<in> set xs \<Longrightarrow> index_of xs x < length xs"
  unfolding index_of_def by (induction xs) auto

lemma index_of_append_in: "x \<in> set xs \<Longrightarrow> index_of (xs @ ys) x = index_of xs x"
  unfolding index_of_def by (induction xs) auto

lemma index_of_append_new: "x \<notin> set xs \<Longrightarrow> index_of (xs @ [x]) x = length xs"
  unfolding index_of_def by (induction xs) auto

lemma edge_of_entry:
  assumes "dict_of_sets g" "map_of g x = Some vs"
  shows "(x, v) \<in> edges g \<longleftrightarrow> v \<in> set vs"
proof
  assume "(x, v) \<in> edges g"
  then obtain vs' where vs': "(x, vs') \<in> set g" "v \<in> set vs'" by (auto simp: edges_def)
  from assms(1) have "distinct (map fst g)" by (simp add: dict_of_sets_def)
  then have "map_of g x = Some vs'" using vs'(1) by (rule map_of_is_SomeI)
  with assms(2) vs'(2) show "v \<in> set vs" by simp
next
  assume "v \<in> set vs"
  moreover from assms(2) have "(x, vs) \<in> set g" by (rule map_of_SomeD)
  ultimately show "(x, v) \<in> edges g" by (auto simp: edges_def)
qed

lemma pending_insert:
  assumes "dict_of_sets g" "map_of g x = Some vs" "x \<notin> R"
  shows "pending g (insert x R) v + (if v \<in> set vs then 1 else 0) = pending g R v"
proof -
  let ?A = "{u. (u, v) \<in> edges g \<and> u \<notin> R}"
  have fin: "finite ?A" by (rule finite_prereqs)
  have e: "{u. (u, v) \<in> edges g \<and> u \<notin> insert x R} = ?A - {x}" by auto
  have xin: "x \<in> ?A \<longleftrightarrow> v \<in> set vs"
    using edge_of_entry[OF assms(1,2), of v] assms(3) by simp
  have p1: "pending g (insert x R) v = card (?A - {x})"
    unfolding pending_card[OF assms(1)] e ..
  have p0: "pending g R v = card ?A" by (rule pending_card[OF assms(1)])
  show ?thesis
  proof (cases "v \<in> set vs")
    case True
    with xin have "x \<in> ?A" by simp
    then have "card (?A - {x}) + 1 = card ?A"
      using card_Suc_Diff1[OF fin, of x] by simp
    with True p0 p1 show ?thesis by simp
  next
    case False
    with xin have "x \<notin> ?A" by simp
    then have "?A - {x} = ?A" by blast
    with False p0 p1 show ?thesis by simp
  qed
qed

lemma pending_zero_prereqs:
  assumes "dict_of_sets g" "pending g R v = 0" "(u, v) \<in> edges g"
  shows "u \<in> R"
proof (rule ccontr)
  assume "u \<notin> R"
  with assms(3) have m: "u \<in> {u. (u, v) \<in> edges g \<and> u \<notin> R}" by simp
  have "card {u. (u, v) \<in> edges g \<and> u \<notin> R} = 0"
    using assms(2) unfolding pending_card[OF assms(1)] .
  then have "{u. (u, v) \<in> edges g \<and> u \<notin> R} = {}"
    by (simp only: card_0_eq[OF finite_prereqs])
  with m show False by (simp only: empty_iff)
qed

lemma prereqs_zero_pending:
  assumes "dict_of_sets g" "\<And>u. (u, v) \<in> edges g \<Longrightarrow> u \<in> R"
  shows "pending g R v = 0"
proof -
  have e: "{u. (u, v) \<in> edges g \<and> u \<notin> R} = {}" using assms(2) by auto
  show ?thesis unfolding pending_card[OF assms(1)] e by simp
qed

lemma finite_edges: "finite (edges g)"
proof (induction g)
  case Nil
  show ?case by (simp add: edges_def)
next
  case (Cons item g)
  obtain k vs where item: "item = (k, vs)" by (cases item)
  have "{(k, v) | v. v \<in> set vs} = (\<lambda>v. (k, v)) ` set vs" by auto
  then have "finite {(k, v) | v. v \<in> set vs}" by simp
  with Cons.IH show ?case unfolding item edges_Cons by simp
qed

lemma key_entry:
  assumes "dict_of_sets g" "closed_graph g" "x \<in> fst ` set g"
  shows "\<exists>vs. map_of g x = Some vs \<and> distinct vs \<and> set vs \<subseteq> fst ` set g"
proof -
  from assms(3) obtain vs where vs: "(x, vs) \<in> set g" by auto
  from assms(1) have "distinct (map fst g)" by (simp add: dict_of_sets_def)
  then have "map_of g x = Some vs" using vs by (rule map_of_is_SomeI)
  moreover from assms(1) vs have "distinct vs"
    by (auto simp: dict_of_sets_def list_all_iff)
  moreover from assms(2) vs have "set vs \<subseteq> fst ` set g"
    unfolding closed_graph_iff by (auto simp: list_all_iff)
  ultimately show ?thesis by blast
qed

lemma kahn_step:
  assumes dos: "dict_of_sets g" and cl: "closed_graph g"
    and gs: "graph s = g" and tr: "traversal s = Some t"
    and inv: "kahn_inv g t res" and qu: "queue t = x # q" and pos: "0 < it_cnt t"
  shows "\<exists>s1 s2 t2. next_step s = (Inr x, s1) \<and> node_done s1 x = (None, s2) \<and>
           graph s2 = g \<and> traversal s2 = Some t2 \<and> kahn_inv g t2 (res @ [x]) \<and>
           it_cnt t2 = it_cnt t - 1"
proof -
  let ?K = "fst ` set g"
  let ?d = "run_in_degree t"
  from inv have i1: "fst ` set ?d = ?K"
    and i2: "\<And>v. v \<in> ?K \<Longrightarrow> map_of ?d v = Some (int (pending g (set res) v))"
    and i3: "distinct (res @ queue t)"
    and i4: "set (res @ queue t) = {v \<in> ?K. pending g (set res) v = 0}"
    and i5: "it_cnt t + length res = length g"
    and i6: "\<And>u v. (u, v) \<in> edges g \<Longrightarrow> v \<in> set res \<Longrightarrow>
               u \<in> set res \<and> index_of res u < index_of res v"
    unfolding kahn_inv_def by auto
  let ?t1 = "t\<lparr>queue := q, it_cnt := it_cnt t - 1\<rparr>"
  let ?s1 = "s\<lparr>traversal := Some ?t1\<rparr>"
  have n: "next_step s = (Inr x, ?s1)" using tr qu pos by (simp add: next_step_def)
  have "x \<in> set (res @ queue t)" using qu by simp
  then have xK: "x \<in> ?K" and x0: "pending g (set res) x = 0" unfolding i4 by simp_all
  have xres: "x \<notin> set res" and xq: "x \<notin> set q" and dres: "distinct res" and dq: "distinct q"
    and rq: "set res \<inter> set q = {}"
    using i3 qu by auto
  from key_entry[OF dos cl xK] obtain vs where vs:
    "map_of g x = Some vs" "distinct vs" "set vs \<subseteq> ?K" by blast
  have tr1: "traversal ?s1 = Some ?t1" by simp
  have g1: "map_of (graph ?s1) x = Some vs" using vs(1) gs by simp
  have sub1: "set vs \<subseteq> fst ` set (run_in_degree ?t1)" using vs(3) i1 by simp
  from node_done_effect[OF tr1 g1 vs(2) sub1] obtain t2 where t2:
    "node_done ?s1 x = (None, ?s1\<lparr>traversal := Some t2\<rparr>)"
    "it_cnt t2 = it_cnt ?t1"
    "map fst (run_in_degree t2) = map fst (run_in_degree ?t1)"
    "\<And>v. map_of (run_in_degree t2) v =
        (if v \<in> set vs then map_option (\<lambda>c. c - 1) (map_of (run_in_degree ?t1) v)
         else map_of (run_in_degree ?t1) v)"
    "queue t2 = queue ?t1 @ filter (\<lambda>v. map_of (run_in_degree ?t1) v = Some 1) vs"
    by blast
  let ?new = "filter (\<lambda>v. map_of ?d v = Some 1) vs"
  let ?R = "set (res @ [x])"
  have R: "?R = insert x (set res)" by simp
  have pend: "\<And>v. pending g ?R v + (if v \<in> set vs then 1 else 0) = pending g (set res) v"
    unfolding R by (rule pending_insert[OF dos vs(1) xres])
  have q2: "queue t2 = q @ ?new" using t2(5) by simp
  have new_iff: "\<And>v. v \<in> set ?new \<longleftrightarrow> v \<in> set vs \<and> pending g (set res) v = 1"
  proof -
    fix v
    show "v \<in> set ?new \<longleftrightarrow> v \<in> set vs \<and> pending g (set res) v = 1"
    proof (cases "v \<in> set vs")
      case True
      with vs(3) have "v \<in> ?K" by auto
      from i2[OF this] True show ?thesis by simp
    next
      case False
      then show ?thesis by simp
    qed
  qed
  have j1: "fst ` set (run_in_degree t2) = ?K"
    using t2(3) i1 by (metis set_map traverse.select_convs(1) traverse.surjective traverse.update_convs(2) traverse.update_convs(4))
  have j2: "\<forall>v \<in> ?K. map_of (run_in_degree t2) v = Some (int (pending g ?R v))"
  proof
    fix v assume vK: "v \<in> ?K"
    show "map_of (run_in_degree t2) v = Some (int (pending g ?R v))"
      using t2(4)[of v] i2[OF vK] pend[of v] by (cases "v \<in> set vs") simp_all
  qed
  have old0: "\<And>v. v \<in> set res \<union> {x} \<union> set q \<Longrightarrow> v \<in> ?K \<and> pending g (set res) v = 0"
  proof -
    fix v assume "v \<in> set res \<union> {x} \<union> set q"
    then have "v \<in> set (res @ queue t)" using qu by auto
    then show "v \<in> ?K \<and> pending g (set res) v = 0" unfolding i4 by simp
  qed
  have disj: "set ?new \<inter> (set res \<union> {x} \<union> set q) = {}"
  proof (rule ccontr)
    assume "set ?new \<inter> (set res \<union> {x} \<union> set q) \<noteq> {}"
    then obtain v where v: "v \<in> set ?new" "v \<in> set res \<union> {x} \<union> set q" by blast
    from v(1) have "pending g (set res) v = 1" unfolding new_iff by simp
    with old0[OF v(2)] show False by simp
  qed
  have j3: "distinct ((res @ [x]) @ queue t2)"
    unfolding q2 using dres dq rq xres xq vs(2) disj by auto
  have j4: "set ((res @ [x]) @ queue t2) = {v \<in> ?K. pending g ?R v = 0}"
  proof (intro set_eqI iffI)
    fix v assume "v \<in> set ((res @ [x]) @ queue t2)"
    then consider (old) "v \<in> set res \<union> {x} \<union> set q" | (new) "v \<in> set ?new"
      unfolding q2 by auto
    then show "v \<in> {v \<in> ?K. pending g ?R v = 0}"
    proof cases
      case old
      from old0[OF old] pend[of v] show ?thesis by simp
    next
      case new
      then have "v \<in> set vs" "pending g (set res) v = 1" unfolding new_iff by simp_all
      with vs(3) pend[of v] show ?thesis by auto
    qed
  next
    fix v assume "v \<in> {v \<in> ?K. pending g ?R v = 0}"
    then have vK: "v \<in> ?K" and v0: "pending g ?R v = 0" by simp_all
    show "v \<in> set ((res @ [x]) @ queue t2)"
    proof (cases "v \<in> set vs")
      case True
      with pend[of v] v0 have "pending g (set res) v = 1" by simp
      with True have "v \<in> set ?new" unfolding new_iff by simp
      then show ?thesis unfolding q2 by simp
    next
      case False
      with pend[of v] v0 have "pending g (set res) v = 0" by simp
      with vK have "v \<in> set (res @ queue t)" unfolding i4 by simp
      then show ?thesis unfolding q2 using qu by auto
    qed
  qed
  have j5: "it_cnt t2 + length (res @ [x]) = length g"
    using t2(2) i5 pos by simp
  have j6: "\<forall>(u, v) \<in> edges g. v \<in> ?R \<longrightarrow> u \<in> ?R \<and> index_of (res @ [x]) u < index_of (res @ [x]) v"
  proof (clarify)
    fix u v assume e: "(u, v) \<in> edges g" and v: "v \<in> ?R"
    show "u \<in> ?R \<and> index_of (res @ [x]) u < index_of (res @ [x]) v"
    proof (cases "v \<in> set res")
      case True
      from i6[OF e True] have u: "u \<in> set res" "index_of res u < index_of res v" by simp_all
      then show ?thesis
        using True by (simp add: index_of_append_in)
    next
      case False
      with v have vx: "v = x" by simp
      from pending_zero_prereqs[OF dos x0 e[unfolded vx]] have u: "u \<in> set res" .
      then have "index_of (res @ [x]) u < length res"
        by (simp add: index_of_append_in index_of_less)
      then show ?thesis using u vx xres by (simp add: index_of_append_new)
    qed
  qed
  have inv2: "kahn_inv g t2 (res @ [x])"
    unfolding kahn_inv_def using j1 j2 j3 j4 j5 j6 by blast
  have "graph (?s1\<lparr>traversal := Some t2\<rparr>) = g" using gs by simp
  moreover have "traversal (?s1\<lparr>traversal := Some t2\<rparr>) = Some t2" by simp
  moreover have "it_cnt t2 = it_cnt t - 1" using t2(2) by simp
  ultimately show ?thesis using n t2(1) inv2 by blast
qed

lemma kahn_progress:
  assumes dos: "dict_of_sets g" and ac: "acyclic (edges g)"
    and inv: "kahn_inv g t res" and pos: "0 < it_cnt t"
  shows "queue t \<noteq> []"
proof -
  let ?K = "fst ` set g"
  from inv have i3: "distinct (res @ queue t)"
    and i4: "set (res @ queue t) = {v \<in> ?K. pending g (set res) v = 0}"
    and i5: "it_cnt t + length res = length g"
    unfolding kahn_inv_def by auto
  from dos have dk: "distinct (map fst g)" by (simp add: dict_of_sets_def)
  have sub: "set res \<subseteq> ?K" using i4 by auto
  have "card (set res) = length res" using i3 by (simp add: distinct_card)
  moreover have "card ?K = length g" using distinct_card[OF dk] by simp
  ultimately have "card (set res) < card ?K" using i5 pos by simp
  then have "set res \<noteq> ?K" by auto
  with sub obtain z0 where z0: "z0 \<in> ?K - set res" by blast
  have "wf (edges g)" by (rule finite_acyclic_wf[OF finite_edges ac])
  from wfE_min[OF this z0] obtain z where z: "z \<in> ?K - set res"
    "\<And>y. (y, z) \<in> edges g \<Longrightarrow> y \<notin> ?K - set res" by blast
  have "\<And>u. (u, z) \<in> edges g \<Longrightarrow> u \<in> set res"
  proof -
    fix u assume e: "(u, z) \<in> edges g"
    from edges_keys[OF e] z(2)[OF e] show "u \<in> set res" by simp
  qed
  from prereqs_zero_pending[OF dos this] have "pending g (set res) z = 0" by simp
  with z(1) have "z \<in> set (res @ queue t)" unfolding i4 by simp
  with z(1) show ?thesis by auto
qed

lemma kahn_loop:
  assumes dos: "dict_of_sets g" and cl: "closed_graph g" and ac: "acyclic (edges g)"
  shows "graph s = g \<Longrightarrow> traversal s = Some t \<Longrightarrow> kahn_inv g t res \<Longrightarrow> it_cnt t = n \<Longrightarrow>
     \<exists>xs s' t'. topological_sort_loop s res = (Inr xs, s') \<and> graph s' = g \<and>
        traversal s' = Some t' \<and> kahn_inv g t' xs \<and> it_cnt t' = 0"
proof (induction n arbitrary: s t res)
  case 0
  then have "next_step s = (Inl StopIteration, s)" by (simp add: next_step_def)
  then have "topological_sort_loop s res = (Inr res, s)"
    by (subst topological_sort_loop.simps) simp
  with 0 show ?case by blast
next
  case (Suc n)
  from Suc.prems(4) have pos: "0 < it_cnt t" by simp
  from kahn_progress[OF dos ac Suc.prems(3) pos] obtain x q where qu: "queue t = x # q"
    by (cases "queue t") auto
  from kahn_step[OF dos cl Suc.prems(1,2,3) qu pos] obtain s1 s2 t2 where st:
    "next_step s = (Inr x, s1)" "node_done s1 x = (None, s2)" "graph s2 = g"
    "traversal s2 = Some t2" "kahn_inv g t2 (res @ [x])" "it_cnt t2 = it_cnt t - 1"
    by blast
  have unfold: "topological_sort_loop s res = topological_sort_loop s2 (res @ [x])"
    using st(1,2) by (subst topological_sort_loop.simps) simp
  from st(6) Suc.prems(4) have "it_cnt t2 = n" by simp
  from Suc.IH[OF st(3,4,5) this] show ?case unfolding unfold .
qed

lemma kahn_start:
  assumes dos: "dict_of_sets (graph s)" and cl: "closed_graph (graph s)"
  shows "\<exists>s0 t0. start_traverse s = (None, s0) \<and> graph s0 = graph s \<and>
           traversal s0 = Some t0 \<and> kahn_inv (graph s) t0 []"
proof -
  let ?g = "graph s"
  from start_traverse_closed[OF cl] obtain d where d:
    "start_traverse s =
       (None, s\<lparr>traversal := Some
          \<lparr>run_in_degree = d, queue = map fst (filter (\<lambda>(k, v). v = 0) d),
           done_set = {}, it_cnt = length ?g\<rparr>\<rparr>)"
    "map fst d = map fst ?g"
    "\<forall>x. map_of d x = (if x \<in> fst ` set ?g then Some (int (pending ?g {} x)) else None)"
    by blast
  let ?t0 = "\<lparr>run_in_degree = d, queue = map fst (filter (\<lambda>(k, v). v = 0) d),
           done_set = {}, it_cnt = length ?g\<rparr>"
  from dos d(2) have dd: "distinct (map fst d)" by (simp add: dict_of_sets_def)
  have k: "fst ` set d = fst ` set ?g" using d(2) by (metis set_map)
  have q: "set (queue ?t0) = {x \<in> fst ` set ?g. pending ?g {} x = 0}"
    using seeds_zero[OF dd] d(3) by auto
  have "kahn_inv ?g ?t0 []"
    unfolding kahn_inv_def using k d(3) seeds_distinct[OF dd] q by simp
  then show ?thesis using d(1) by simp
qed

lemma topological_sort_sorts:
  assumes dos: "dict_of_sets (graph s)" and cl: "closed_graph (graph s)"
    and ac: "acyclic (edges (graph s))"
  shows "\<exists>xs s'. topological_sort s = (Inr xs, s') \<and> graph s' = graph s \<and>
           length xs = length (graph s) \<and> distinct xs \<and> set xs = fst ` set (graph s) \<and>
           (\<forall>(u, v) \<in> edges (graph s). index_of xs u < index_of xs v)"
proof -
  let ?g = "graph s"
  let ?K = "fst ` set ?g"
  from kahn_start[OF dos cl] obtain s0 t0 where s0:
    "start_traverse s = (None, s0)" "graph s0 = ?g" "traversal s0 = Some t0"
    "kahn_inv ?g t0 []" by blast
  from kahn_loop[OF dos cl ac s0(2,3,4) refl] obtain xs s' t' where l:
    "topological_sort_loop s0 [] = (Inr xs, s')" "graph s' = ?g"
    "traversal s' = Some t'" "kahn_inv ?g t' xs" "it_cnt t' = 0" by blast
  from l(4) have i3: "distinct (xs @ queue t')"
    and i4: "set (xs @ queue t') = {v \<in> ?K. pending ?g (set xs) v = 0}"
    and i5: "it_cnt t' + length xs = length ?g"
    and i6: "\<And>u v. (u, v) \<in> edges ?g \<Longrightarrow> v \<in> set xs \<Longrightarrow>
               u \<in> set xs \<and> index_of xs u < index_of xs v"
    unfolding kahn_inv_def by auto
  have ts: "topological_sort s = (Inr xs, s')"
    using s0(1) l(1) by (simp add: topological_sort_def iter_def)
  have len: "length xs = length ?g" using i5 l(5) by simp
  have dx: "distinct xs" using i3 by simp
  from dos have dk: "distinct (map fst ?g)" by (simp add: dict_of_sets_def)
  have sub: "set xs \<subseteq> ?K" using i4 by auto
  have "card (set xs) = card ?K"
    using distinct_card[OF dx] distinct_card[OF dk] len by simp
  with sub have sx: "set xs = ?K" by (simp add: card_subset_eq)
  have ord: "\<forall>(u, v) \<in> edges ?g. index_of xs u < index_of xs v"
  proof (clarify)
    fix u v assume e: "(u, v) \<in> edges ?g"
    then obtain vs where vs: "(u, vs) \<in> set ?g" "v \<in> set vs" by (auto simp: edges_def)
    from cl vs have "v \<in> ?K" unfolding closed_graph_iff by (auto simp: list_all_iff)
    then have "v \<in> set xs" unfolding sx .
    from i6[OF e this] show "index_of xs u < index_of xs v" by simp
  qed
  from ts l(2) len dx sx ord show ?thesis by blast
qed

section \<open>The topological sort of a closed acyclic graph\<close>

lemma list_all_update:
  "list_all P g \<Longrightarrow> P (k, x) \<Longrightarrow> list_all P (AList.update k x g)"
  by (induction g) auto

lemma add_node_dict_of_sets: "dict_of_sets (graph s) \<Longrightarrow> dict_of_sets (graph (add_node s node))"
  by (auto simp: add_node_def setdefault_def dict_of_sets_def)

lemma add_edge_dict_of_sets:
  assumes "dict_of_sets (graph s)"
  shows "dict_of_sets (graph (snd (add_edge s u v)))"
proof (cases "map_of (graph s) u")
  case None
  then show ?thesis using assms by (simp add: add_edge_def)
next
  case (Some vs)
  from Some have "(u, vs) \<in> set (graph s)" by (rule map_of_SomeD)
  with assms have "distinct vs" by (auto simp: dict_of_sets_def list_all_iff)
  then have dv: "distinct (set_add vs v)" by (rule distinct_set_add)
  have "list_all (\<lambda>(u, vs). distinct vs) (AList.update u (set_add vs v) (graph s))"
    using assms dv by (intro list_all_update) (simp_all add: dict_of_sets_def)
  moreover have "map fst (AList.update u (set_add vs v) (graph s)) = map fst (graph s)"
    by (rule update_keys_present[OF Some])
  ultimately show ?thesis using assms Some by (simp add: add_edge_def dict_of_sets_def)
qed

lemma from_dict_dict_of_sets:
  "distinct (map fst data) \<Longrightarrow> dict_of_sets (graph (snd (from_dict s data)))"
  by (simp add: from_dict_graph loaded_dict_of_sets)

lemma built_dict_of_sets: "built s \<Longrightarrow> dict_of_sets (graph s)"
proof (induction rule: built.induct)
  case built_new
  show ?case by (simp add: new_dag_def dict_of_sets_def)
next
  case (built_node s node)
  then show ?case by (simp add: add_node_dict_of_sets)
next
  case (built_edge s u v)
  then show ?case by (simp add: add_edge_dict_of_sets)
next
  case (built_dict s data)
  then show ?case by (simp add: from_dict_dict_of_sets)
qed

lemma acyclic_by_rank:
  fixes f :: "'a \<Rightarrow> nat"
  assumes "\<forall>(u, vs) \<in> set g. \<forall>v \<in> set vs. f u < f v"
  shows "acyclic (edges g)"
proof -
  have "edges g \<subseteq> measure f" using assms by (auto simp: edges_def)
  then have "wf (edges g)" by (rule wf_subset[OF wf_measure])
  then show ?thesis by (rule wf_acyclic)
qed

text \<open>
  C1, amended. For every graph built by \<^verbatim>\<open>add_node\<close>, \<^verbatim>\<open>add_edge\<close> and
  \<^verbatim>\<open>from_dict\<close> that is acyclic and in which every successor is itself a node,
  \<^verbatim>\<open>topological_sort\<close> returns normally; with \<open>K\<close> nodes in the graph the
  result has exactly \<open>K\<close> identifiers, holds every node exactly once, and for every
  edge \<open>(u, v)\<close> the node \<open>u\<close> stands strictly before \<open>v\<close> in it.
\<close>

theorem topological_sort_orders_closed_acyclic_graph:
  assumes "built s" and "closed_graph (graph s)" and "acyclic (edges (graph s))"
  shows "\<exists>xs s'. topological_sort s = (Inr xs, s') \<and>
           length xs = length (graph s) \<and> distinct xs \<and> set xs = fst ` set (graph s) \<and>
           (\<forall>(u, v) \<in> edges (graph s). index_of xs u < index_of xs v)"
  using topological_sort_sorts[OF built_dict_of_sets[OF assms(1)] assms(2,3)] by blast

text \<open>
  C1, as the claim states it, fails: the graph of \<^verbatim>\<open>test_add_node_after_edge\<close>,
  built by \<^verbatim>\<open>add_node('a')\<close> and \<^verbatim>\<open>add_edge('a', 'b')\<close>, is acyclic and has
  one node, and \<^verbatim>\<open>topological_sort\<close> raises \<^verbatim>\<open>KeyError\<close> on it, since \<open>b\<close> has
  no entry in the in-degree table.
\<close>

theorem topological_sort_dangling_edge_raises:
  "built (snd (add_edge (add_node new_dag ''a'') ''a'' ''b'')) \<and>
   graph (snd (add_edge (add_node new_dag ''a'') ''a'' ''b'')) = [(''a'', [''b''])] \<and>
   acyclic (edges (graph (snd (add_edge (add_node new_dag ''a'') ''a'' ''b'')))) \<and>
   fst (topological_sort (snd (add_edge (add_node new_dag ''a'') ''a'' ''b''))) = Inl KeyError"
proof -
  let ?s = "snd (add_edge (add_node new_dag ''a'') ''a'' ''b'') :: string tinydag"
  have b: "built ?s" by (intro built_edge built_node built_new)
  have g: "graph ?s = [(''a'', [''b''])]"
    by (simp add: add_edge_def add_node_def new_dag_def setdefault_def set_add_def)
  have "\<forall>(u, vs) \<in> set (graph ?s). \<forall>v \<in> set vs. index_of [''a'', ''b''] u < index_of [''a'', ''b''] v"
    unfolding g by (simp add: index_of_def)
  then have a: "acyclic (edges (graph ?s))" by (rule acyclic_by_rank)
  have "get_in_degree ?s = Inl KeyError" by (simp add: get_in_degree_def g)
  then have "fst (topological_sort ?s) = Inl KeyError"
    by (simp add: topological_sort_def iter_def start_traverse_def)
  with b g a show ?thesis by blast
qed

text \<open>The graph of the unit tests, loaded by \<^verbatim>\<open>from_dict\<close>.\<close>

theorem topological_sort_orders_closed_acyclic_graph_witness:
  "built (snd (from_dict new_dag test_graph)) \<and>
   closed_graph (graph (snd (from_dict new_dag test_graph))) \<and>
   acyclic (edges (graph (snd (from_dict new_dag test_graph)))) \<and>
   length (graph (snd (from_dict new_dag test_graph))) = 7 \<and>
   fst (topological_sort (snd (from_dict new_dag test_graph)))
     = Inr [''a'', ''g'', ''b'', ''f'', ''c'', ''d'', ''e'']"
proof -
  let ?s = "snd (from_dict new_dag test_graph) :: string tinydag"
  have dk: "distinct (map fst test_graph)" by (simp add: test_graph_def)
  have b: "built ?s" by (intro built_dict built_new dk)
  have g: "graph ?s = test_graph"
    unfolding from_dict_graph[OF dk] by (simp add: test_graph_def set_add_def)
  have c: "closed_graph (graph ?s)" unfolding g by (simp add: closed_graph_def test_graph_def)
  have "\<forall>(u, vs) \<in> set (graph ?s). \<forall>v \<in> set vs.
      index_of [''a'', ''g'', ''b'', ''f'', ''c'', ''d'', ''e''] u
        < index_of [''a'', ''g'', ''b'', ''f'', ''c'', ''d'', ''e''] v"
    unfolding g by (simp add: test_graph_def index_of_def)
  then have a: "acyclic (edges (graph ?s))" by (rule acyclic_by_rank)
  have l: "length (graph ?s) = 7" unfolding g by (simp add: test_graph_def)
  have e: "fst (topological_sort ?s) = Inr [''a'', ''g'', ''b'', ''f'', ''c'', ''d'', ''e'']"
    by code_simp
  from topological_sort_orders_closed_acyclic_graph[OF b c a]
  obtain xs s' where "topological_sort ?s = (Inr xs, s')" "length xs = length (graph ?s)"
    by blast
  with e have "length [''a'', ''g'', ''b'', ''f'', ''c'', ''d'', ''e''] = length (graph ?s)"
    by simp
  with b c a e show ?thesis by simp
qed

lemma index_of_last: "distinct xs \<Longrightarrow> xs \<noteq> [] \<Longrightarrow> index_of xs (last xs) = length xs - 1"
proof -
  assume d: "distinct xs" and n: "xs \<noteq> []"
  from n have e: "xs = butlast xs @ [last xs]" by simp
  from d have "distinct (butlast xs @ [last xs])" by (subst e[symmetric])
  then have "last xs \<notin> set (butlast xs)" by simp
  then have "index_of (butlast xs @ [last xs]) (last xs) = length (butlast xs)"
    by (rule index_of_append_new)
  with e show ?thesis by simp
qed

lemma last_if_after_all:
  assumes "distinct xs" "e \<in> set xs"
    and "\<And>x. x \<in> set xs \<Longrightarrow> x \<noteq> e \<Longrightarrow> index_of xs x < index_of xs e"
  shows "last xs = e"
proof (rule ccontr)
  assume ne: "last xs \<noteq> e"
  from assms(2) have n: "xs \<noteq> []" by auto
  then have "last xs \<in> set xs" by simp
  from assms(3)[OF this ne] have "index_of xs (last xs) < index_of xs e" .
  moreover have "index_of xs (last xs) = length xs - 1" by (rule index_of_last[OF assms(1) n])
  moreover have "index_of xs e < length xs" by (rule index_of_less[OF assms(2)])
  ultimately show False by simp
qed

section \<open>The concrete scenario\<close>

lemma entry_of_key_and_set:
  assumes "map fst g = k # ks" and "map (\<lambda>(u, vs). set vs) g = S # Ss"
  obtains vs g' where "g = (k, vs) # g'" and "set vs = S" and "map fst g' = ks"
    and "map (\<lambda>(u, vs). set vs) g' = Ss"
  using assms by (cases g) auto

text \<open>
  C6, amended. The adjacency mapping
  \<^verbatim>\<open>{a:[b,d,f], b:[c,d], c:[d], d:[e], e:[], f:[e]}\<close> has six keys. On every object
  whose graph has these keys in this order and under each key the declared successors,
  in whatever order the successor sets iterate, \<^verbatim>\<open>topological_sort\<close> returns all
  six identifiers, each once, with \<open>a\<close> before \<open>b\<close>, \<open>d\<close> and \<open>f\<close>; \<open>b\<close> before
  \<open>c\<close> and \<open>d\<close>; \<open>c\<close> before \<open>d\<close>; \<open>d\<close> before \<open>e\<close>; \<open>f\<close> before \<open>e\<close>; and
  \<open>e\<close> last. The object that \<^verbatim>\<open>from_dict\<close> returns for the mapping is such an
  object.
\<close>

theorem topological_sort_of_spec_graph:
  assumes keys: "map fst (graph s) = [''a'', ''b'', ''c'', ''d'', ''e'', ''f'']"
    and succs: "map (\<lambda>(u, vs). set vs) (graph s)
                 = [{''b'', ''d'', ''f''}, {''c'', ''d''}, {''d''}, {''e''}, {}, {''e''}]"
    and sets: "list_all (\<lambda>(u, vs). distinct vs) (graph s)"
  shows "\<exists>xs s'. topological_sort s = (Inr xs, s') \<and>
           length xs = 6 \<and> distinct xs \<and>
           set xs = {''a'', ''b'', ''c'', ''d'', ''e'', ''f''} \<and>
           index_of xs ''a'' < index_of xs ''b'' \<and>
           index_of xs ''a'' < index_of xs ''d'' \<and>
           index_of xs ''a'' < index_of xs ''f'' \<and>
           index_of xs ''b'' < index_of xs ''c'' \<and>
           index_of xs ''b'' < index_of xs ''d'' \<and>
           index_of xs ''c'' < index_of xs ''d'' \<and>
           index_of xs ''d'' < index_of xs ''e'' \<and>
           index_of xs ''f'' < index_of xs ''e'' \<and>
           last xs = ''e''"
proof -
  obtain va g1 where
    a: "graph s = (''a'', va) # g1" "set va = {''b'', ''d'', ''f''}"
      "map fst g1 = [''b'', ''c'', ''d'', ''e'', ''f'']"
      "map (\<lambda>(u, vs). set vs) g1 = [{''c'', ''d''}, {''d''}, {''e''}, {}, {''e''}]"
    by (rule entry_of_key_and_set[OF keys succs])
  obtain vb g2 where
    b: "g1 = (''b'', vb) # g2" "set vb = {''c'', ''d''}"
      "map fst g2 = [''c'', ''d'', ''e'', ''f'']"
      "map (\<lambda>(u, vs). set vs) g2 = [{''d''}, {''e''}, {}, {''e''}]"
    by (rule entry_of_key_and_set[OF a(3,4)])
  obtain vc g3 where
    c: "g2 = (''c'', vc) # g3" "set vc = {''d''}"
      "map fst g3 = [''d'', ''e'', ''f'']"
      "map (\<lambda>(u, vs). set vs) g3 = [{''e''}, {}, {''e''}]"
    by (rule entry_of_key_and_set[OF b(3,4)])
  obtain vd g4 where
    d: "g3 = (''d'', vd) # g4" "set vd = {''e''}"
      "map fst g4 = [''e'', ''f'']"
      "map (\<lambda>(u, vs). set vs) g4 = [{}, {''e''}]"
    by (rule entry_of_key_and_set[OF c(3,4)])
  obtain ve g5 where
    e5: "g4 = (''e'', ve) # g5" "set ve = {}"
      "map fst g5 = [''f'']"
      "map (\<lambda>(u, vs). set vs) g5 = [{''e''}]"
    by (rule entry_of_key_and_set[OF d(3,4)])
  obtain vf g6 where
    f: "g5 = (''f'', vf) # g6" "set vf = {''e''}" "map fst g6 = []"
      "map (\<lambda>(u, vs). set vs) g6 = []"
    by (rule entry_of_key_and_set[OF e5(3,4)])
  from f(3) have "g6 = []" by simp
  with a(1) b(1) c(1) d(1) e5(1) f(1)
  have g: "graph s = [(''a'', va), (''b'', vb), (''c'', vc), (''d'', vd), (''e'', ve), (''f'', vf)]"
    by simp
  note sv = a(2) b(2) c(2) d(2) e5(2) f(2)
  have dos: "dict_of_sets (graph s)"
    using sets unfolding dict_of_sets_def keys by simp
  have cl: "closed_graph (graph s)"
    unfolding closed_graph_iff g by (simp add: sv)
  have "\<forall>(u, vs) \<in> set (graph s). \<forall>v \<in> set vs.
      index_of [''a'', ''b'', ''c'', ''f'', ''d'', ''e''] u
        < index_of [''a'', ''b'', ''c'', ''f'', ''d'', ''e''] v"
    unfolding g by (simp add: sv index_of_def)
  then have ac: "acyclic (edges (graph s))" by (rule acyclic_by_rank)
  from topological_sort_sorts[OF dos cl ac] obtain xs where
    "\<exists>s'. topological_sort s = (Inr xs, s') \<and> graph s' = graph s \<and>
       length xs = length (graph s) \<and> distinct xs \<and> set xs = fst ` set (graph s) \<and>
       (\<forall>(u, v) \<in> edges (graph s). index_of xs u < index_of xs v)" ..
  then obtain s' where r0:
    "topological_sort s = (Inr xs, s') \<and> graph s' = graph s \<and>
       length xs = length (graph s) \<and> distinct xs \<and> set xs = fst ` set (graph s) \<and>
       (\<forall>(u, v) \<in> edges (graph s). index_of xs u < index_of xs v)" ..
  note r1 = r0[THEN conjunct1]
  note r2 = r0[THEN conjunct2, THEN conjunct2, THEN conjunct1]
  note r3 = r0[THEN conjunct2, THEN conjunct2, THEN conjunct2, THEN conjunct1]
  note r4 = r0[THEN conjunct2, THEN conjunct2, THEN conjunct2, THEN conjunct2, THEN conjunct1]
  note r5 = r0[THEN conjunct2, THEN conjunct2, THEN conjunct2, THEN conjunct2, THEN conjunct2]
  have ord: "\<And>u v. (u, v) \<in> edges (graph s) \<Longrightarrow> index_of xs u < index_of xs v"
  proof -
    fix u v assume "(u, v) \<in> edges (graph s)"
    from bspec[OF r5 this] show "index_of xs u < index_of xs v" by simp
  qed
  have len: "length xs = 6" using r2 unfolding g by simp
  have sx: "set xs = {''a'', ''b'', ''c'', ''d'', ''e'', ''f''}"
    using r4 unfolding g by simp
  have e: "(''a'', ''b'') \<in> edges (graph s)" "(''a'', ''d'') \<in> edges (graph s)"
    "(''a'', ''f'') \<in> edges (graph s)" "(''b'', ''c'') \<in> edges (graph s)"
    "(''b'', ''d'') \<in> edges (graph s)" "(''c'', ''d'') \<in> edges (graph s)"
    "(''d'', ''e'') \<in> edges (graph s)" "(''f'', ''e'') \<in> edges (graph s)"
    unfolding g edges_Cons by (simp_all add: sv)
  note o = e[THEN ord]
  have la: "last xs = ''e''"
  proof (rule last_if_after_all[OF r3])
    show "''e'' \<in> set xs" unfolding sx by simp
  next
    fix x assume "x \<in> set xs" "x \<noteq> ''e''"
    then have "x = ''a'' \<or> x = ''b'' \<or> x = ''c'' \<or> x = ''d'' \<or> x = ''f''"
      unfolding sx by auto
    with o show "index_of xs x < index_of xs ''e''"
      by (elim disjE) simp_all
  qed
  show ?thesis
    by (rule exI[of _ xs], rule exI[of _ s']) (intro conjI r1 len r3 sx o la)
qed

text \<open>
  C6, as the claim states it, fails: the mapping has six identifiers, and the list that
  \<^verbatim>\<open>topological_sort\<close> returns for it has length six, not seven.
\<close>

theorem topological_sort_of_spec_graph_has_six_nodes:
  "map_sum id length (fst (topological_sort (snd (from_dict new_dag spec_graph)))) = Inr 6"
  by code_simp

text \<open>The mapping loaded by \<^verbatim>\<open>from_dict\<close> into a fresh object.\<close>

theorem topological_sort_of_spec_graph_witness:
  "map fst (graph (snd (from_dict new_dag spec_graph)))
     = [''a'', ''b'', ''c'', ''d'', ''e'', ''f''] \<and>
   map (\<lambda>(u, vs). set vs) (graph (snd (from_dict new_dag spec_graph)))
     = [{''b'', ''d'', ''f''}, {''c'', ''d''}, {''d''}, {''e''}, {}, {''e''}] \<and>
   list_all (\<lambda>(u, vs). distinct vs) (graph (snd (from_dict new_dag spec_graph))) \<and>
   fst (topological_sort (snd (from_dict new_dag spec_graph)))
     = Inr [''a'', ''b'', ''f'', ''c'', ''d'', ''e''] \<and>
   last [''a'', ''b'', ''f'', ''c'', ''d'', ''e''] = ''e''"
proof -
  let ?s = "snd (from_dict new_dag spec_graph) :: string tinydag"
  have dk: "distinct (map fst spec_graph)" by (simp add: spec_graph_def)
  have g: "graph ?s = spec_graph"
    unfolding from_dict_graph[OF dk] by (simp add: spec_graph_def set_add_def)
  have k: "map fst (graph ?s) = [''a'', ''b'', ''c'', ''d'', ''e'', ''f'']"
    unfolding g by (simp add: spec_graph_def)
  have sc: "map (\<lambda>(u, vs). set vs) (graph ?s)
     = [{''b'', ''d'', ''f''}, {''c'', ''d''}, {''d''}, {''e''}, {}, {''e''}]"
    unfolding g by (simp add: spec_graph_def)
  have ds: "list_all (\<lambda>(u, vs). distinct vs) (graph ?s)"
    unfolding g by (simp add: spec_graph_def)
  have e: "fst (topological_sort ?s) = Inr [''a'', ''b'', ''f'', ''c'', ''d'', ''e'']"
    by code_simp
  from topological_sort_of_spec_graph[OF k sc ds] obtain xs s' where
    "topological_sort ?s = (Inr xs, s')" "last xs = ''e''" by blast
  with e have l: "last [''a'', ''b'', ''f'', ''c'', ''d'', ''e''] = ''e''" by simp
  show ?thesis by (rule conjI[OF k conjI[OF sc conjI[OF ds conjI[OF e l]]]])
qed

section \<open>Two completions at the same time\<close>

text \<open>
  A thread that runs alone does what \<^verbatim>\<open>node_done\<close> does: the statements compose to
  the method.
\<close>

lemma alone_loop:
  "node_done_succs t vs = (r, t') \<Longrightarrow> \<exists>k. alone g k (Loop vs) t = (outcome r, t')"
proof (induction vs arbitrary: t)
  case Nil
  then have "alone g (Suc 0) (Loop []) t = (outcome r, t')" by (simp add: outcome_def)
  then show ?case by blast
next
  case (Cons v vs)
  show ?case
  proof (cases "map_of (run_in_degree t) v")
    case None
    with Cons.prems have "alone g (Suc 0) (Loop (v # vs)) t = (outcome r, t')"
      by (auto simp: outcome_def)
    then show ?thesis by blast
  next
    case (Some c)
    let ?d1 = "AList.update v (c - 1) (run_in_degree t)"
    let ?t1 = "if c - 1 = 0 then t\<lparr>run_in_degree := ?d1, queue := queue t @ [v]\<rparr>
               else t\<lparr>run_in_degree := ?d1\<rparr>"
    have n: "node_done_succs ?t1 vs = (r, t')" using Cons.prems Some by simp
    from Cons.IH[OF n] obtain k where k: "alone g k (Loop vs) ?t1 = (outcome r, t')" by blast
    have m: "map_of ?d1 v = Some (c - 1)" by (simp add: update_conv')
    have s1: "thread_step g (Loop (v # vs)) t = (Check v vs, t\<lparr>run_in_degree := ?d1\<rparr>)"
      using Some by simp
    have s2: "thread_step g (Check v vs) (t\<lparr>run_in_degree := ?d1\<rparr>) = (Loop vs, ?t1)"
      using m by simp
    have "alone g (Suc (Suc k)) (Loop (v # vs)) t = (outcome r, t')"
      using s1 s2 k by simp
    then show ?thesis by blast
  qed
qed

lemma alone_node_done:
  assumes "traversal s = Some t"
  shows "\<exists>k th' t'. alone (graph s) k (Start node) t = (th', t') \<and>
           node_done s node = ((case th' of Raised e \<Rightarrow> Some e | _ \<Rightarrow> None), s\<lparr>traversal := Some t'\<rparr>) \<and>
           (th' = Returned \<or> (\<exists>e. th' = Raised e))"
proof (cases "map_of (graph s) node")
  case None
  let ?t1 = "t\<lparr>done_set := insert node (done_set t)\<rparr>"
  have "alone (graph s) (Suc (Suc 0)) (Start node) t = (Raised KeyError, ?t1)"
    using None by simp
  moreover have "node_done s node = (Some KeyError, s\<lparr>traversal := Some ?t1\<rparr>)"
    using assms None by (simp add: node_done_def)
  ultimately show ?thesis by (intro exI[of _ "Suc (Suc 0)"] exI[of _ "Raised KeyError"] exI[of _ ?t1]) simp
next
  case (Some vs)
  let ?t1 = "t\<lparr>done_set := insert node (done_set t)\<rparr>"
  obtain r t' where n: "node_done_succs ?t1 vs = (r, t')" by (cases "node_done_succs ?t1 vs")
  from alone_loop[OF n, of "graph s"] obtain k where
    k: "alone (graph s) k (Loop vs) ?t1 = (outcome r, t')" by blast
  have a: "alone (graph s) (Suc (Suc k)) (Start node) t = (outcome r, t')"
    using Some k by simp
  have d: "node_done s node = (r, s\<lparr>traversal := Some t'\<rparr>)"
    using assms Some n by (simp add: node_done_def)
  show ?thesis
    using a d by (intro exI[of _ "Suc (Suc k)"] exI[of _ "outcome r"] exI[of _ t'])
      (cases r; simp add: outcome_def)
qed

text \<open>
  C9. The decrement and the test of \<^verbatim>\<open>node_done\<close> are not atomic with respect to
  another completion. On the graph \<^verbatim>\<open>{'p': ['n'], 'q': ['n'], 'n': []}\<close>, after the
  traversal has started, let one thread run \<^verbatim>\<open>node_done('p')\<close> and another
  \<^verbatim>\<open>node_done('q')\<close>. When the first thread decrements the in-degree of \<open>n\<close> from 2
  to 1, the second decrements it from 1 to 0, and only then both run their test, both
  find zero and both enqueue \<open>n\<close>: the shared successor stands twice in the ready queue.
  When the first thread returns before the second starts, \<open>n\<close> is enqueued once.
\<close>

theorem concurrent_node_done_enqueues_twice:
  "start_traverse fan_in_dag =
     (None, fan_in_dag\<lparr>traversal := Some
        \<lparr>run_in_degree = [(''p'', 0), (''q'', 0), (''n'', 2)], queue = [''p'', ''q''],
         done_set = {}, it_cnt = 3\<rparr>\<rparr>) \<and>
   interleave (graph fan_in_dag)
     [False, False, True, True, False, True, False, True, False, True]
     (Start ''p'', Start ''q'',
      \<lparr>run_in_degree = [(''p'', 0), (''q'', 0), (''n'', 2)], queue = [''p'', ''q''],
       done_set = {}, it_cnt = 3\<rparr>)
   = (Returned, Returned,
      \<lparr>run_in_degree = [(''p'', 0), (''q'', 0), (''n'', 0)],
       queue = [''p'', ''q'', ''n'', ''n''], done_set = {''q'', ''p''}, it_cnt = 3\<rparr>) \<and>
   count_list [''p'', ''q'', ''n'', ''n''] ''n'' = 2 \<and>
   interleave (graph fan_in_dag)
     [False, False, False, False, False, True, True, True, True, True]
     (Start ''p'', Start ''q'',
      \<lparr>run_in_degree = [(''p'', 0), (''q'', 0), (''n'', 2)], queue = [''p'', ''q''],
       done_set = {}, it_cnt = 3\<rparr>)
   = (Returned, Returned,
      \<lparr>run_in_degree = [(''p'', 0), (''q'', 0), (''n'', 0)],
       queue = [''p'', ''q'', ''n''], done_set = {''q'', ''p''}, it_cnt = 3\<rparr>)"
proof (intro conjI)
  show "start_traverse fan_in_dag =
     (None, fan_in_dag\<lparr>traversal := Some
        \<lparr>run_in_degree = [(''p'', 0), (''q'', 0), (''n'', 2)], queue = [''p'', ''q''],
         done_set = {}, it_cnt = 3\<rparr>\<rparr>)"
    by (simp add: start_traverse_def get_in_degree_def fan_in_dag_def)
next
  show "interleave (graph fan_in_dag)
     [False, False, True, True, False, True, False, True, False, True]
     (Start ''p'', Start ''q'',
      \<lparr>run_in_degree = [(''p'', 0), (''q'', 0), (''n'', 2)], queue = [''p'', ''q''],
       done_set = {}, it_cnt = 3\<rparr>)
   = (Returned, Returned,
      \<lparr>run_in_degree = [(''p'', 0), (''q'', 0), (''n'', 0)],
       queue = [''p'', ''q'', ''n'', ''n''], done_set = {''q'', ''p''}, it_cnt = 3\<rparr>)"
    by (simp add: fan_in_dag_def insert_commute)
next
  show "count_list [''p'', ''q'', ''n'', ''n''] ''n'' = 2" by simp
next
  show "interleave (graph fan_in_dag)
     [False, False, False, False, False, True, True, True, True, True]
     (Start ''p'', Start ''q'',
      \<lparr>run_in_degree = [(''p'', 0), (''q'', 0), (''n'', 2)], queue = [''p'', ''q''],
       done_set = {}, it_cnt = 3\<rparr>)
   = (Returned, Returned,
      \<lparr>run_in_degree = [(''p'', 0), (''q'', 0), (''n'', 0)],
       queue = [''p'', ''q'', ''n''], done_set = {''q'', ''p''}, it_cnt = 3\<rparr>)"
    by (simp add: fan_in_dag_def insert_commute)
qed

section \<open>Overlapping completions and the yielded nodes\<close>

text \<open>
  C3. A walk yields every node at most once, at most \<open>N\<close> nodes in all, when no two
  completion reports overlap (\<open>sequential_reports_yield_each_node_once\<close>). The code
  does not keep this for reports that overlap, as the pool threads of
  \<^verbatim>\<open>project_cleanup\<close> and of \<^verbatim>\<open>test_walk_parallel\<close> can make them. On the graph
  \<^verbatim>\<open>{'p': ['n'], 'q': ['n'], 'n': ['m'], 'm': []}\<close> with \<open>N = 4\<close>: the traversal
  starts with \<open>p\<close> and \<open>q\<close> in the queue and two pulls yield them; then one thread
  runs \<^verbatim>\<open>node_done('p')\<close> and another \<^verbatim>\<open>node_done('q')\<close>, both decrement the
  in-degree of \<open>n\<close> before either tests it, and both enqueue \<open>n\<close>; the next two pulls
  yield \<open>n\<close> and \<open>n\<close> again, and the pull after them raises \<^verbatim>\<open>StopIteration\<close>,
  whether or not the completion of \<open>n\<close> is reported after each of its two yields. The
  walk has then yielded four items, \<open>n\<close> twice and \<open>m\<close> never.
\<close>

theorem overlapping_reports_yield_node_twice:
  "start_traverse relay_dag =
     (None, relay_dag\<lparr>traversal := Some
        \<lparr>run_in_degree = [(''p'', 0), (''q'', 0), (''n'', 2), (''m'', 1)],
         queue = [''p'', ''q''], done_set = {}, it_cnt = 4\<rparr>\<rparr>) \<and>
   run (relay_dag\<lparr>traversal := Some
          \<lparr>run_in_degree = [(''p'', 0), (''q'', 0), (''n'', 2), (''m'', 1)],
           queue = [''p'', ''q''], done_set = {}, it_cnt = 4\<rparr>\<rparr>) [Pull, Pull]
     = ([Inr ''p'', Inr ''q''],
        relay_dag\<lparr>traversal := Some
          \<lparr>run_in_degree = [(''p'', 0), (''q'', 0), (''n'', 2), (''m'', 1)],
           queue = [], done_set = {}, it_cnt = 2\<rparr>\<rparr>) \<and>
   interleave (graph relay_dag)
     [False, False, True, True, False, True, False, True, False, True]
     (Start ''p'', Start ''q'',
      \<lparr>run_in_degree = [(''p'', 0), (''q'', 0), (''n'', 2), (''m'', 1)],
       queue = [], done_set = {}, it_cnt = 2\<rparr>)
     = (Returned, Returned,
        \<lparr>run_in_degree = [(''p'', 0), (''q'', 0), (''n'', 0), (''m'', 1)],
         queue = [''n'', ''n''], done_set = {''q'', ''p''}, it_cnt = 2\<rparr>) \<and>
   run (relay_dag\<lparr>traversal := Some
          \<lparr>run_in_degree = [(''p'', 0), (''q'', 0), (''n'', 0), (''m'', 1)],
           queue = [''n'', ''n''], done_set = {''q'', ''p''}, it_cnt = 2\<rparr>\<rparr>)
       [Pull, Pull, Pull]
     = ([Inr ''n'', Inr ''n'', Inl StopIteration],
        relay_dag\<lparr>traversal := Some
          \<lparr>run_in_degree = [(''p'', 0), (''q'', 0), (''n'', 0), (''m'', 1)],
           queue = [], done_set = {''q'', ''p''}, it_cnt = 0\<rparr>\<rparr>) \<and>
   run (relay_dag\<lparr>traversal := Some
          \<lparr>run_in_degree = [(''p'', 0), (''q'', 0), (''n'', 0), (''m'', 1)],
           queue = [''n'', ''n''], done_set = {''q'', ''p''}, it_cnt = 2\<rparr>\<rparr>)
       [Pull, Done ''n'', Pull, Done ''n'', Pull]
     = ([Inr ''n'', Inr ''n'', Inl StopIteration],
        relay_dag\<lparr>traversal := Some
          \<lparr>run_in_degree = [(''p'', 0), (''q'', 0), (''n'', 0), (''m'', - 1)],
           queue = [''m''], done_set = {''n'', ''q'', ''p''}, it_cnt = 0\<rparr>\<rparr>) \<and>
   yielded [Inr ''p'', Inr ''q'', Inr ''n'', Inr ''n'', Inl StopIteration]
     = [''p'', ''q'', ''n'', ''n''] \<and>
   count_list [''p'', ''q'', ''n'', ''n''] ''n'' = 2 \<and>
   count_list [''p'', ''q'', ''n'', ''n''] ''m'' = 0 \<and>
   length (graph relay_dag) = 4"
proof (intro conjI)
  show "start_traverse relay_dag =
     (None, relay_dag\<lparr>traversal := Some
        \<lparr>run_in_degree = [(''p'', 0), (''q'', 0), (''n'', 2), (''m'', 1)],
         queue = [''p'', ''q''], done_set = {}, it_cnt = 4\<rparr>\<rparr>)"
    by (simp add: start_traverse_def get_in_degree_def relay_dag_def)
next
  show "run (relay_dag\<lparr>traversal := Some
          \<lparr>run_in_degree = [(''p'', 0), (''q'', 0), (''n'', 2), (''m'', 1)],
           queue = [''p'', ''q''], done_set = {}, it_cnt = 4\<rparr>\<rparr>) [Pull, Pull]
     = ([Inr ''p'', Inr ''q''],
        relay_dag\<lparr>traversal := Some
          \<lparr>run_in_degree = [(''p'', 0), (''q'', 0), (''n'', 2), (''m'', 1)],
           queue = [], done_set = {}, it_cnt = 2\<rparr>\<rparr>)"
    by (simp add: next_step_def)
next
  show "interleave (graph relay_dag)
     [False, False, True, True, False, True, False, True, False, True]
     (Start ''p'', Start ''q'',
      \<lparr>run_in_degree = [(''p'', 0), (''q'', 0), (''n'', 2), (''m'', 1)],
       queue = [], done_set = {}, it_cnt = 2\<rparr>)
     = (Returned, Returned,
        \<lparr>run_in_degree = [(''p'', 0), (''q'', 0), (''n'', 0), (''m'', 1)],
         queue = [''n'', ''n''], done_set = {''q'', ''p''}, it_cnt = 2\<rparr>)"
    by (simp add: relay_dag_def insert_commute)
next
  show "run (relay_dag\<lparr>traversal := Some
          \<lparr>run_in_degree = [(''p'', 0), (''q'', 0), (''n'', 0), (''m'', 1)],
           queue = [''n'', ''n''], done_set = {''q'', ''p''}, it_cnt = 2\<rparr>\<rparr>)
       [Pull, Pull, Pull]
     = ([Inr ''n'', Inr ''n'', Inl StopIteration],
        relay_dag\<lparr>traversal := Some
          \<lparr>run_in_degree = [(''p'', 0), (''q'', 0), (''n'', 0), (''m'', 1)],
           queue = [], done_set = {''q'', ''p''}, it_cnt = 0\<rparr>\<rparr>)"
    by (simp add: next_step_def)
next
  show "run (relay_dag\<lparr>traversal := Some
          \<lparr>run_in_degree = [(''p'', 0), (''q'', 0), (''n'', 0), (''m'', 1)],
           queue = [''n'', ''n''], done_set = {''q'', ''p''}, it_cnt = 2\<rparr>\<rparr>)
       [Pull, Done ''n'', Pull, Done ''n'', Pull]
     = ([Inr ''n'', Inr ''n'', Inl StopIteration],
        relay_dag\<lparr>traversal := Some
          \<lparr>run_in_degree = [(''p'', 0), (''q'', 0), (''n'', 0), (''m'', - 1)],
           queue = [''m''], done_set = {''n'', ''q'', ''p''}, it_cnt = 0\<rparr>\<rparr>)"
    by (simp add: next_step_def node_done_def relay_dag_def insert_commute)
next
  show "yielded [Inr ''p'', Inr ''q'', Inr ''n'', Inr ''n'', Inl StopIteration]
     = [''p'', ''q'', ''n'', ''n'']" by simp
next
  show "count_list [''p'', ''q'', ''n'', ''n''] ''n'' = 2" by simp
next
  show "count_list [''p'', ''q'', ''n'', ''n''] ''m'' = 0" by simp
next
  show "length (graph relay_dag) = 4" by (simp add: relay_dag_def)
qed

end
